theory Spec2Isabelle
  imports
    Main
    "HOL-Library.AList"
    "HOL-Library.Char_ord"
    "HOL-Library.List_Lexorder"
    "HOL-Library.Product_Lexorder"
    "HOL-Library.Word"
begin

section \<open>Shared Python values\<close>

text \<open>
  Python values that occur as leaves of a syntax tree.  A float is kept as its IEEE-754 bit
  pattern (no arithmetic is done on it).  \<open>POther\<close> stands for a value of any other Python
  type (bytes, complex, Ellipsis, a tuple), identified by its \<open>repr\<close>.
  Strings are compared as Python compares them, code unit by code unit
  (\<open>Char_ord\<close> and \<open>List_Lexorder\<close>).
\<close>

datatype pyval = PNone | PStr string | PInt int | PBool bool | PFloat "64 word" | POther string

datatype py_error = ValueError string | KeyError string | TypeError string

text \<open>A Python \<open>dict\<close> with string keys: an association list in insertion order.
  Assigning to an existing key keeps its position and replaces the value, assigning to a new
  key appends: this is \<^const>\<open>AList.update\<close>.\<close>

type_synonym 'v pydict = "(string \<times> 'v) list"

section \<open>ouverture.py: the syntax tree\<close>

text \<open>
  The node classes of Python's \<open>ast\<close> module that \<open>ouverture.py\<close> names are constructors of
  their own; every other node class is \<open>Other\<close> with its class name and its fields in
  \<open>_fields\<close> order, a field being a leaf value, a child node or a list of items
  (\<open>ast.iter_fields\<close>).  Source positions are not part of the tree, so \<open>clear_locations\<close> and
  \<open>ast.fix_missing_locations\<close> are the identity on it.
\<close>

datatype expr_context = Load | Store | Del

datatype 'n item = INode 'n | IAtom pyval

datatype 'n field = FAtom pyval | FNode 'n | FList "'n item list"

datatype import_alias = Alias (alias_name: string) (asname: "string option")

datatype node =
    Import "import_alias list"
  | ImportFrom "string option" "import_alias list" "int option"
  | FunctionDef string node "node list" "node list" "node option" "string option" "node list"
  | Name string expr_context
  | Arg string "node option" "string option"
  | Expr node
  | Constant pyval "string option"
  | Attribute node string expr_context
  | Other string "(string \<times> node field) list"

text \<open>\<open>FunctionDef name args body decorator_list returns type_comment type_params\<close>,
  \<open>Arg arg annotation type_comment\<close>, \<open>ImportFrom module names level\<close>,
  \<open>Constant value kind\<close>, \<open>Attribute value attr ctx\<close>, \<open>Name id ctx\<close>.\<close>

datatype py_module = Module (body: "node list") (type_ignores: "node list")

lemma size_item_mem [termination_simp]:
  "z \<in> set_item i \<Longrightarrow> size z < Suc (size_item size i)"
  by (cases i) auto

lemma size_field_mem [termination_simp]:
  "z \<in> set_field b \<Longrightarrow> size z < Suc (size_field size b)"
proof (cases b)
  case (FList its)
  assume "z \<in> set_field b"
  with FList obtain i where i: "i \<in> set its" "z \<in> set_item i" by auto
  from i(1) have "size_item size i \<le> size_list (size_item size) its"
    by (simp add: size_list_estimation')
  with size_item_mem[OF i(2)] FList show ?thesis by simp
qed auto

lemma size_fields_mem [termination_simp]:
  "(a, b) \<in> set fs \<Longrightarrow> z \<in> set_field b \<Longrightarrow>
     size z < Suc (size_list (\<lambda>x. Suc (size_field size (snd x))) fs)"
proof -
  assume m: "(a, b) \<in> set fs" and z: "z \<in> set_field b"
  from m have "Suc (size_field size (snd (a, b))) \<le> size_list (\<lambda>x. Suc (size_field size (snd x))) fs"
    by (rule size_list_estimation') simp
  with size_field_mem[OF z] show ?thesis by simp
qed

fun is_import :: "node \<Rightarrow> bool" where
  "is_import (Import names) = True"
| "is_import (ImportFrom modname names level) = True"
| "is_import n = False"

fun is_FunctionDef :: "node \<Rightarrow> bool" where
  "is_FunctionDef (FunctionDef name args stmts decorator_list returns type_comment type_params) = True"
| "is_FunctionDef n = False"

subsection \<open>sort_imports\<close>

text \<open>The sort key of an import.  Python compares the tuples \<open>('import', names)\<close> and
  \<open>('from', module, names)\<close>; the first component already separates the two shapes, so the
  key is padded to a triple with an empty module for \<open>import\<close>.  \<open>list.sort\<close> is stable, as
  \<^const>\<open>sort_key\<close> is.\<close>

fun import_key :: "node \<Rightarrow> string \<times> string \<times> string list" where
  "import_key (Import names) = (''import'', [], sort (map alias_name names))"
| "import_key (ImportFrom modname names level) =
     (''from'', (case modname of Some m \<Rightarrow> m | None \<Rightarrow> []), sort (map alias_name names))"
| "import_key n = ([], [], [])"

definition sort_imports :: "py_module \<Rightarrow> py_module" where
  "sort_imports tree =
     (case partition is_import (body tree) of
        (imports, other_nodes) \<Rightarrow> Module (sort_key import_key imports @ other_nodes) (type_ignores tree))"

subsection \<open>extract_function_def\<close>

fun extract_loop :: "node list \<Rightarrow> node list \<Rightarrow> node option \<Rightarrow> py_error + (node option \<times> node list)" where
  "extract_loop [] imports function_def = Inr (function_def, imports)"
| "extract_loop (n # ns) imports function_def =
     (if is_import n then extract_loop ns (imports @ [n]) function_def
      else if is_FunctionDef n then
        (if function_def \<noteq> None then Inl (ValueError ''Only one function definition is allowed per file'')
         else extract_loop ns imports (Some n))
      else extract_loop ns imports function_def)"

definition extract_function_def :: "py_module \<Rightarrow> py_error + (node \<times> node list)" where
  "extract_function_def tree =
     (case extract_loop (body tree) [] None of
        Inl e \<Rightarrow> Inl e
      | Inr (None, imports) \<Rightarrow> Inl (ValueError ''No function definition found in file'')
      | Inr (Some function_def, imports) \<Rightarrow> Inr (function_def, imports))"

subsection \<open>create_name_mapping\<close>

text \<open>\<open>ast.walk\<close>: the node and all its descendants.  Python yields them breadth first; the
  callers only collect names into a set, so the order is immaterial and the list is built
  depth first.  Context nodes (\<open>Load\<close>, \<open>Store\<close>, \<open>Del\<close>) and \<open>alias\<close> nodes are neither
  \<open>Name\<close> nor \<open>arg\<close> and have no children; they are left out.\<close>

fun walk :: "node \<Rightarrow> node list" where
  "walk (FunctionDef name args stmts decorator_list returns type_comment type_params) =
     FunctionDef name args stmts decorator_list returns type_comment type_params #
       walk args @ concat (map walk stmts) @ concat (map walk decorator_list) @
       (case returns of None \<Rightarrow> [] | Some r \<Rightarrow> walk r) @ concat (map walk type_params)"
| "walk (Arg a annotation type_comment) =
     Arg a annotation type_comment # (case annotation of None \<Rightarrow> [] | Some e \<Rightarrow> walk e)"
| "walk (Expr v) = Expr v # walk v"
| "walk (Attribute v attr ctx) = Attribute v attr ctx # walk v"
| "walk (Other cls fs) =
     Other cls fs #
       concat (map (\<lambda>(k, f). case f of
                       FAtom a \<Rightarrow> []
                     | FNode n \<Rightarrow> walk n
                     | FList its \<Rightarrow> concat (map (\<lambda>i. case i of INode n \<Rightarrow> walk n | IAtom a \<Rightarrow> []) its)) fs)"
| "walk n = [n]"

text \<open>The decimal rendering of a counter, as an f-string formats an \<open>int\<close>.\<close>

fun str_nat :: "nat \<Rightarrow> string" where
  "str_nat n = (if n < 10 then [char_of (48 + n)] else str_nat (n div 10) @ [char_of (48 + n mod 10)])"

declare str_nat.simps [simp del]

definition designator :: "nat \<Rightarrow> string" where
  "designator counter = ''_ouverture_v_'' @ str_nat counter"

text \<open>\<open>alias.asname if alias.asname else alias.name\<close>: an empty \<open>asname\<close> is falsy.\<close>

fun local_name :: "import_alias \<Rightarrow> string" where
  "local_name (Alias name None) = name"
| "local_name (Alias name (Some a)) = (if a \<noteq> [] then a else name)"

fun imported_by :: "node \<Rightarrow> string list" where
  "imported_by (Import names) = map local_name names"
| "imported_by (ImportFrom modname names level) = map local_name names"
| "imported_by n = []"

fun name_of_node :: "node \<Rightarrow> string option" where
  "name_of_node (Name i ctx) = Some i"
| "name_of_node (Arg a annotation type_comment) = Some a"
| "name_of_node n = None"

fun function_name :: "node \<Rightarrow> string" where
  "function_name (FunctionDef name args stmts decorator_list returns type_comment type_params) = name"

fun mapping_loop :: "string list \<Rightarrow> nat \<Rightarrow> string pydict \<times> string pydict \<Rightarrow> string pydict \<times> string pydict" where
  "mapping_loop [] counter (forward_mapping, reverse_mapping) = (forward_mapping, reverse_mapping)"
| "mapping_loop (name # names) counter (forward_mapping, reverse_mapping) =
     mapping_loop names (counter + 1)
       (AList.update name (designator counter) forward_mapping,
        AList.update (designator counter) name reverse_mapping)"

text \<open>\<open>PYTHON_BUILTINS = set(dir(builtins))\<close> depends on the interpreter; it is the parameter
  \<open>builtin_names\<close>.\<close>

definition collected_names :: "string set \<Rightarrow> node \<Rightarrow> node list \<Rightarrow> string set \<Rightarrow> string set" where
  "collected_names builtin_names function_def imports ouverture_aliases =
     (let imported_names = set (concat (map imported_by imports))
      in set (filter (\<lambda>i. i \<notin> imported_names \<and> i \<notin> builtin_names \<and> i \<notin> ouverture_aliases)
                (List.map_filter name_of_node (walk function_def)))
           - {function_name function_def})"

definition create_name_mapping ::
  "string set \<Rightarrow> node \<Rightarrow> node list \<Rightarrow> string set \<Rightarrow> string pydict \<times> string pydict" where
  "create_name_mapping builtin_names function_def imports ouverture_aliases =
     mapping_loop
       (sorted_list_of_set (collected_names builtin_names function_def imports ouverture_aliases)) 1
       ([(function_name function_def, ''_ouverture_v_0'')],
        [(''_ouverture_v_0'', function_name function_def)])"

subsection \<open>rewrite_ouverture_imports and replace_ouverture_calls\<close>

fun alias_loop ::
  "import_alias list \<Rightarrow> string pydict \<Rightarrow> import_alias list \<Rightarrow> import_alias list \<times> string pydict" where
  "alias_loop [] alias_mapping new_names = (new_names, alias_mapping)"
| "alias_loop (Alias name asn # rest) alias_mapping new_names =
     alias_loop rest
       (case asn of
          Some a \<Rightarrow> if a \<noteq> [] then AList.update name a alias_mapping else alias_mapping
        | None \<Rightarrow> alias_mapping)
       (new_names @ [Alias name None])"

fun rewrite_loop :: "node list \<Rightarrow> node list \<Rightarrow> string pydict \<Rightarrow> node list \<times> string pydict" where
  "rewrite_loop [] new_imports alias_mapping = (new_imports, alias_mapping)"
| "rewrite_loop (ImportFrom (Some m) names level # rest) new_imports alias_mapping =
     (if m = ''ouverture'' then
        (case alias_loop names alias_mapping [] of
           (new_names, alias_mapping') \<Rightarrow>
             rewrite_loop rest (new_imports @ [ImportFrom (Some ''couverture'') new_names (Some 0)]) alias_mapping')
      else rewrite_loop rest (new_imports @ [ImportFrom (Some m) names level]) alias_mapping)"
| "rewrite_loop (imp # rest) new_imports alias_mapping =
     rewrite_loop rest (new_imports @ [imp]) alias_mapping"

definition rewrite_ouverture_imports :: "node list \<Rightarrow> node list \<times> string pydict" where
  "rewrite_ouverture_imports imports = rewrite_loop imports [] []"

text \<open>\<open>OuvertureCallReplacer\<close>: a \<open>NodeTransformer\<close> with \<open>visit_Name\<close> only.  The first entry
  of \<open>alias_mapping\<close> whose alias is the name's id decides; every other node is visited
  generically, child by child.\<close>

fun replace_calls :: "string pydict \<Rightarrow> node \<Rightarrow> node" where
  "replace_calls alias_mapping (Name i ctx) =
     (case find (\<lambda>(func_hash, a). i = a) alias_mapping of
        Some (func_hash, a) \<Rightarrow> Attribute (Name func_hash Load) ''_ouverture_v_0'' ctx
      | None \<Rightarrow> Name i ctx)"
| "replace_calls alias_mapping (FunctionDef name args stmts decorator_list returns type_comment type_params) =
     FunctionDef name (replace_calls alias_mapping args) (map (replace_calls alias_mapping) stmts)
       (map (replace_calls alias_mapping) decorator_list) (map_option (replace_calls alias_mapping) returns)
       type_comment (map (replace_calls alias_mapping) type_params)"
| "replace_calls alias_mapping (Arg a annotation type_comment) =
     Arg a (map_option (replace_calls alias_mapping) annotation) type_comment"
| "replace_calls alias_mapping (Expr v) = Expr (replace_calls alias_mapping v)"
| "replace_calls alias_mapping (Attribute v attr ctx) = Attribute (replace_calls alias_mapping v) attr ctx"
| "replace_calls alias_mapping (Other cls fs) =
     Other cls (map (map_prod id (map_field (replace_calls alias_mapping))) fs)"
| "replace_calls alias_mapping n = n"

definition replace_ouverture_calls :: "py_module \<Rightarrow> string pydict \<Rightarrow> string pydict \<Rightarrow> py_module" where
  "replace_ouverture_calls tree alias_mapping name_mapping =
     Module (map (replace_calls alias_mapping) (body tree)) (map (replace_calls alias_mapping) (type_ignores tree))"

subsection \<open>ASTNormalizer\<close>

definition mapped :: "string pydict \<Rightarrow> string \<Rightarrow> string" where
  "mapped name_mapping x = (case map_of name_mapping x of Some y \<Rightarrow> y | None \<Rightarrow> x)"

text \<open>\<open>visit_Name\<close> and \<open>visit_arg\<close> return without \<open>generic_visit\<close>: the annotation of an
  \<open>arg\<close> is not visited.  \<open>visit_FunctionDef\<close> renames and then visits the children.\<close>

fun visit :: "string pydict \<Rightarrow> node \<Rightarrow> node" where
  "visit name_mapping (Name i ctx) = Name (mapped name_mapping i) ctx"
| "visit name_mapping (Arg a annotation type_comment) = Arg (mapped name_mapping a) annotation type_comment"
| "visit name_mapping (FunctionDef name args stmts decorator_list returns type_comment type_params) =
     FunctionDef (mapped name_mapping name) (visit name_mapping args) (map (visit name_mapping) stmts)
       (map (visit name_mapping) decorator_list) (map_option (visit name_mapping) returns)
       type_comment (map (visit name_mapping) type_params)"
| "visit name_mapping (Expr v) = Expr (visit name_mapping v)"
| "visit name_mapping (Attribute v attr ctx) = Attribute (visit name_mapping v) attr ctx"
| "visit name_mapping (Other cls fs) = Other cls (map (map_prod id (map_field (visit name_mapping))) fs)"
| "visit name_mapping n = n"

definition ASTNormalizer_visit :: "string pydict \<Rightarrow> py_module \<Rightarrow> py_module" where
  "ASTNormalizer_visit name_mapping tree =
     Module (map (visit name_mapping) (body tree)) (map (visit name_mapping) (type_ignores tree))"

subsection \<open>extract_docstring and normalize_ast\<close>

text \<open>\<open>ast.get_docstring\<close> returns the text of a leading bare string statement, cleaned by
  \<open>inspect.cleandoc\<close> (the parameter \<open>cleandoc\<close>), and \<open>None\<close> otherwise;
  \<open>docstring if docstring else ""\<close> turns \<open>None\<close> into the empty string.  The copy of the
  function loses its first statement when that is a bare string constant.\<close>

fun is_docstring_stmt :: "node \<Rightarrow> bool" where
  "is_docstring_stmt (Expr (Constant (PStr s) kind)) = True"
| "is_docstring_stmt n = False"

fun get_docstring :: "(string \<Rightarrow> string) \<Rightarrow> node \<Rightarrow> string option" where
  "get_docstring cleandoc (FunctionDef name args (Expr (Constant (PStr s) kind) # stmts)
      decorator_list returns type_comment type_params) = Some (cleandoc s)"
| "get_docstring cleandoc n = None"

fun without_docstring :: "node \<Rightarrow> node" where
  "without_docstring (FunctionDef name args stmts decorator_list returns type_comment type_params) =
     FunctionDef name args
       (if stmts \<noteq> [] \<and> is_docstring_stmt (hd stmts) then tl stmts else stmts)
       decorator_list returns type_comment type_params"
| "without_docstring n = n"

definition extract_docstring :: "(string \<Rightarrow> string) \<Rightarrow> node \<Rightarrow> string \<times> node" where
  "extract_docstring cleandoc function_def =
     ((case get_docstring cleandoc function_def of Some d \<Rightarrow> d | None \<Rightarrow> []),
      without_docstring function_def)"

text \<open>One pass of the loop body of \<open>normalize_ast\<close> over a module: the call replacer, then
  the normalizer (clearing and fixing locations changes nothing in the tree).\<close>

definition process_module :: "string pydict \<Rightarrow> string pydict \<Rightarrow> py_module \<Rightarrow> py_module" where
  "process_module alias_mapping forward_mapping tree =
     ASTNormalizer_visit forward_mapping (replace_ouverture_calls tree alias_mapping forward_mapping)"

text \<open>
  \<open>ast.unparse\<close> is the parameter \<open>unparse\<close>.  The two modules are built from the same
  import objects, and the transformers work in place: the loop transforms the imports once
  with the first module and once more with the second, and both modules are unparsed after
  the loop.  The function with its docstring and its deep copy without it are separate
  objects, each transformed once.  The argument \<open>lang\<close> is not used.
\<close>

definition normalized_modules ::
  "string pydict \<Rightarrow> string pydict \<Rightarrow> node list \<Rightarrow> node \<Rightarrow> node \<Rightarrow> py_module \<times> py_module" where
  "normalized_modules alias_mapping forward_mapping imports function_def function_without_docstring =
     (let first_pass = process_module alias_mapping forward_mapping (Module (imports @ [function_def]) []);
          second_pass = process_module alias_mapping forward_mapping
                          (Module (butlast (body first_pass) @ [function_without_docstring]) [])
      in (Module (butlast (body second_pass) @ [last (body first_pass)]) [], second_pass))"

definition normalize_ast ::
  "(py_module \<Rightarrow> string) \<Rightarrow> (string \<Rightarrow> string) \<Rightarrow> string set \<Rightarrow> py_module \<Rightarrow> string \<Rightarrow>
     py_error + (string \<times> string \<times> string \<times> string pydict \<times> string pydict)" where
  "normalize_ast unparse cleandoc builtin_names tree lang =
     (case extract_function_def (sort_imports tree) of
        Inl e \<Rightarrow> Inl e
      | Inr (function_def, imports0) \<Rightarrow>
          (case extract_docstring cleandoc function_def of
             (docstring, function_without_docstring) \<Rightarrow>
          (case rewrite_ouverture_imports imports0 of
             (imports, alias_mapping) \<Rightarrow>
          (case create_name_mapping builtin_names function_def imports (set (map snd alias_mapping)) of
             (forward_mapping, reverse_mapping) \<Rightarrow>
          (case normalized_modules alias_mapping forward_mapping imports function_def function_without_docstring of
             (module_with_docstring, module_without_docstring) \<Rightarrow>
               Inr (unparse module_with_docstring, unparse module_without_docstring,
                    docstring, reverse_mapping, alias_mapping))))))"

text \<open>\<open>hashlib.sha256(code.encode('utf-8')).hexdigest()\<close> is the parameter \<open>sha256\<close>.\<close>

definition compute_hash :: "(string \<Rightarrow> string) \<Rightarrow> string \<Rightarrow> string" where
  "compute_hash sha256 code = sha256 code"

section \<open>ouverture.py: the object store\<close>

text \<open>A JSON document.  A file of the object store is modelled by the document it holds:
  \<open>json.dump\<close> followed by \<open>json.load\<close> returns the document it was given, with the keys of
  every object in the order they were written.\<close>

datatype json =
    JNull | JBool bool | JInt int | JFloat "64 word" | JStr string | JArr "json list" | JObj "(string \<times> json) list"

datatype access = PathExists "string list" | ReadFile "string list" | MakeDirs "string list" | WriteFile "string list"

text \<open>The world \<open>add_function\<close> runs in: the source files it may read, the directories and
  JSON files below the working directory, and the log of file-system accesses made so far.
  A path is the list of its components.\<close>

record world =
  source_files :: "string \<rightharpoonup> string"
  dirs :: "string list set"
  json_files :: "string list \<rightharpoonup> json"
  accesses :: "access list"

definition objects_dir :: "string list" where
  "objects_dir = [''.ouverture'', ''objects'']"

text \<open>\<open>objects_dir / hash_value[:2]\<close> and \<open>hash_dir / f'{hash_value[2:]}.json'\<close>; \<open>pathlib\<close>
  drops an empty component.\<close>

definition hash_dir :: "string \<Rightarrow> string list" where
  "hash_dir hash_value = objects_dir @ filter (\<lambda>c. c \<noteq> []) [take 2 hash_value]"

definition json_path :: "string \<Rightarrow> string list" where
  "json_path hash_value = hash_dir hash_value @ [drop 2 hash_value @ ''.json'']"

definition str_dict :: "string pydict \<Rightarrow> json" where
  "str_dict d = JObj (map (\<lambda>(k, v). (k, JStr v)) d)"

text \<open>\<open>data[field][lang] = v\<close>: a missing \<open>field\<close> raises \<open>KeyError\<close>, a \<open>data\<close> or a
  \<open>data[field]\<close> that is not an object raises \<open>TypeError\<close>.\<close>

fun set_entry :: "json \<Rightarrow> string \<Rightarrow> string \<Rightarrow> json \<Rightarrow> py_error + json" where
  "set_entry (JObj kvs) field lang v =
     (case map_of kvs field of
        None \<Rightarrow> Inl (KeyError field)
      | Some (JObj d) \<Rightarrow> Inr (JObj (AList.update field (JObj (AList.update lang v d)) kvs))
      | Some other \<Rightarrow> Inl (TypeError field))"
| "set_entry data field lang v = Inl (TypeError field)"

definition new_record :: "string \<Rightarrow> string \<Rightarrow> json" where
  "new_record hash_value normalized_code =
     JObj [(''version'', JInt 0), (''hash'', JStr hash_value), (''normalized_code'', JStr normalized_code),
           (''docstrings'', JObj []), (''name_mappings'', JObj []), (''alias_mappings'', JObj [])]"

definition add_language_data ::
  "json \<Rightarrow> string \<Rightarrow> string \<Rightarrow> string pydict \<Rightarrow> string pydict \<Rightarrow> py_error + json" where
  "add_language_data data lang docstring name_mapping alias_mapping =
     (case set_entry data ''docstrings'' lang (JStr docstring) of
        Inl e \<Rightarrow> Inl e
      | Inr data1 \<Rightarrow>
          (case set_entry data1 ''name_mappings'' lang (str_dict name_mapping) of
             Inl e \<Rightarrow> Inl e
           | Inr data2 \<Rightarrow> set_entry data2 ''alias_mappings'' lang (str_dict alias_mapping)))"

text \<open>\<open>save_function\<close> returns the exception it raised, if any, and the world it left.  The
  directories are made before anything can fail; the file is written only when the three
  assignments went through.\<close>

definition save_function ::
  "string \<Rightarrow> string \<Rightarrow> string \<Rightarrow> string \<Rightarrow> string pydict \<Rightarrow> string pydict \<Rightarrow> world \<Rightarrow> py_error option \<times> world" where
  "save_function hash_value lang normalized_code docstring name_mapping alias_mapping w =
     (let w1 = w\<lparr>dirs := dirs w \<union> {[''.ouverture''], objects_dir, hash_dir hash_value},
                 accesses := accesses w @ [MakeDirs (hash_dir hash_value), PathExists (json_path hash_value)]\<rparr>;
          (data, w2) = (case json_files w1 (json_path hash_value) of
                          Some stored \<Rightarrow> (stored, w1\<lparr>accesses := accesses w1 @ [ReadFile (json_path hash_value)]\<rparr>)
                        | None \<Rightarrow> (new_record hash_value normalized_code, w1))
      in case add_language_data data lang docstring name_mapping alias_mapping of
           Inl e \<Rightarrow> (Some e, w2)
         | Inr data' \<Rightarrow>
             (None, w2\<lparr>json_files := (json_files w2)(json_path hash_value \<mapsto> data'),
                       accesses := accesses w2 @ [WriteFile (json_path hash_value)]\<rparr>))"

subsection \<open>add_function\<close>

text \<open>\<open>s.rsplit('@', 1)\<close> for a string that contains the separator: the text before the last
  \<open>@\<close> and the text after it.\<close>

definition rsplit_at :: "string \<Rightarrow> string \<times> string" where
  "rsplit_at s =
     (rev (drop 1 (dropWhile (\<lambda>c. c \<noteq> CHR ''@'') (rev s))),
      rev (takeWhile (\<lambda>c. c \<noteq> CHR ''@'') (rev s)))"

datatype exit_reason =
    MissingLanguageSuffix
  | BadLanguageCode string
  | FileNotFound string
  | ParseFailed string
  | NormalizeFailed py_error

datatype outcome = Exit1 exit_reason | Raised py_error | Returned

text \<open>\<open>ast.parse\<close> is the parameter \<open>parse\<close> (\<open>None\<close> for a \<open>SyntaxError\<close>).  Every
  \<open>sys.exit(1)\<close> follows an error message; the message is the \<open>exit_reason\<close>.\<close>

definition add_function ::
  "(string \<Rightarrow> py_module option) \<Rightarrow> (py_module \<Rightarrow> string) \<Rightarrow> (string \<Rightarrow> string) \<Rightarrow> (string \<Rightarrow> string) \<Rightarrow>
     string set \<Rightarrow> string \<Rightarrow> world \<Rightarrow> outcome \<times> world" where
  "add_function parse unparse cleandoc sha256 builtin_names file_path_with_lang w =
     (if CHR ''@'' \<notin> set file_path_with_lang then (Exit1 MissingLanguageSuffix, w)
      else
        (case rsplit_at file_path_with_lang of
           (file_path, lang) \<Rightarrow>
             if length lang \<noteq> 3 then (Exit1 (BadLanguageCode lang), w)
             else
               (let w1 = w\<lparr>accesses := accesses w @ [PathExists [file_path]]\<rparr>
                in case source_files w1 file_path of
                     None \<Rightarrow> (Exit1 (FileNotFound file_path), w1)
                   | Some source_code \<Rightarrow>
                       (let w2 = w1\<lparr>accesses := accesses w1 @ [ReadFile [file_path]]\<rparr>
                        in case parse source_code of
                             None \<Rightarrow> (Exit1 (ParseFailed file_path), w2)
                           | Some tree \<Rightarrow>
                               (case normalize_ast unparse cleandoc builtin_names tree lang of
                                  Inl e \<Rightarrow> (Exit1 (NormalizeFailed e), w2)
                                | Inr (normalized_code_with_docstring, normalized_code_without_docstring,
                                       docstring, name_mapping, alias_mapping) \<Rightarrow>
                                    (case save_function (compute_hash sha256 normalized_code_without_docstring) lang
                                            normalized_code_with_docstring docstring name_mapping alias_mapping w2 of
                                       (Some e, w3) \<Rightarrow> (Raised e, w3)
                                     | (None, w3) \<Rightarrow> (Returned, w3)))))))"

section \<open>aston.py\<close>

text \<open>
  \<open>ast_to_aston\<close> reads a node through \<open>ast.iter_fields\<close> only, so the tree is generic: a
  class name and the fields in order.  A field value is \<open>None\<close> or a scalar
  (\<open>str\<close>, \<open>int\<close>, \<open>float\<close>, \<open>bool\<close>), a list, a node, or a value of another type
  (\<open>bytes\<close>, \<open>complex\<close>, \<open>Ellipsis\<close>, a tuple: \<open>FieldOther\<close> with its \<open>repr\<close>), which matches
  no branch of the \<open>isinstance\<close> chain.  An item of a list is a node or, as in the lists of
  Python's syntax trees, \<open>None\<close> or a scalar.
\<close>

datatype atom = ANone | AStr string | AInt int | AFloat "64 word" | ABool bool

datatype 'n aston_item = ItemNode 'n | ItemAtom atom

datatype 'n aston_field = FieldAtom atom | FieldList "'n aston_item list" | FieldNode 'n | FieldOther string

datatype ast = AST (cls: string) (ast_fields: "(string \<times> ast aston_field) list")

text \<open>A tuple \<open>(content_hash, key, index, value)\<close>.\<close>

type_synonym quad = "string \<times> string \<times> nat option \<times> atom"

datatype field_data = Scalar atom | ListData "atom list"

fun atom_json :: "atom \<Rightarrow> json" where
  "atom_json ANone = JNull"
| "atom_json (AStr s) = JStr s"
| "atom_json (AInt i) = JInt i"
| "atom_json (AFloat x) = JFloat x"
| "atom_json (ABool b) = JBool b"

lemma size_aston_item_mem [termination_simp]:
  "z \<in> set_aston_item i \<Longrightarrow> size z < Suc (size_aston_item size i)"
  by (cases i) auto

lemma size_aston_field_mem [termination_simp]:
  "z \<in> set_aston_field b \<Longrightarrow> size z < Suc (size_aston_field size b)"
proof (cases b)
  case (FieldList its)
  assume "z \<in> set_aston_field b"
  with FieldList obtain i where i: "i \<in> set its" "z \<in> set_aston_item i" by auto
  from i(1) have "size_aston_item size i \<le> size_list (size_aston_item size) its"
    by (simp add: size_list_estimation')
  with size_aston_item_mem[OF i(2)] FieldList show ?thesis by simp
qed auto

lemma size_aston_fields_mem [termination_simp]:
  "(a, b) \<in> set fs \<Longrightarrow> z \<in> set_aston_field b \<Longrightarrow>
     size z < Suc (size_list (\<lambda>x. Suc (size_aston_field size (snd x))) fs)"
proof -
  assume m: "(a, b) \<in> set fs" and z: "z \<in> set_aston_field b"
  from m have "Suc (size_aston_field size (snd (a, b))) \<le> size_list (\<lambda>x. Suc (size_aston_field size (snd x))) fs"
    by (rule size_list_estimation') simp
  with size_aston_field_mem[OF z] show ?thesis by simp
qed

text \<open>The inner loop over the items of a list-valued field.  The children have been
  converted already: an item is the pair \<open>(child_hash, child_tuples)\<close> of a child or a
  plain value.  The loop extends \<open>all_tuples\<close> and appends to \<open>list_items\<close>
  (\<open>obj[field]\<close> receives the same values).\<close>

fun items_loop ::
  "(string \<times> quad list) aston_item list \<Rightarrow> quad list \<times> atom list \<Rightarrow> quad list \<times> atom list" where
  "items_loop [] (all_tuples, list_items) = (all_tuples, list_items)"
| "items_loop (ItemNode (child_hash, child_tuples) # rest) (all_tuples, list_items) =
     items_loop rest (all_tuples @ child_tuples, list_items @ [AStr child_hash])"
| "items_loop (ItemAtom a # rest) (all_tuples, list_items) =
     items_loop rest (all_tuples, list_items @ [a])"

text \<open>The loop over \<open>ast.iter_fields(node)\<close>, with the state \<open>all_tuples\<close>, \<open>obj\<close>,
  \<open>field_data\<close>.  The branches are in the order of the \<open>isinstance\<close> chain; a value of
  another type changes nothing.\<close>

fun fields_loop ::
  "(string \<times> (string \<times> quad list) aston_field) list \<Rightarrow>
     quad list \<times> json pydict \<times> field_data pydict \<Rightarrow> quad list \<times> json pydict \<times> field_data pydict" where
  "fields_loop [] (all_tuples, obj, fdata) = (all_tuples, obj, fdata)"
| "fields_loop ((field, FieldAtom a) # rest) (all_tuples, obj, fdata) =
     fields_loop rest (all_tuples, AList.update field (atom_json a) obj, AList.update field (Scalar a) fdata)"
| "fields_loop ((field, FieldList items) # rest) (all_tuples, obj, fdata) =
     (case items_loop items (all_tuples, []) of
        (all_tuples', list_items) \<Rightarrow>
          fields_loop rest (all_tuples', AList.update field (JArr (map atom_json list_items)) obj,
                            AList.update field (ListData list_items) fdata))"
| "fields_loop ((field, FieldNode (child_hash, child_tuples)) # rest) (all_tuples, obj, fdata) =
     fields_loop rest (all_tuples @ child_tuples, AList.update field (JStr child_hash) obj,
                       AList.update field (Scalar (AStr child_hash)) fdata)"
| "fields_loop ((field, FieldOther r) # rest) (all_tuples, obj, fdata) =
     fields_loop rest (all_tuples, obj, fdata)"

fun node_tuples_of :: "string \<Rightarrow> string \<times> field_data \<Rightarrow> quad list" where
  "node_tuples_of content_hash (field, Scalar data) = [(content_hash, field, None, data)]"
| "node_tuples_of content_hash (field, ListData data) =
     map (\<lambda>(i, item_value). (content_hash, field, Some i, item_value)) (enumerate 0 data)"

text \<open>
  \<open>json.dumps(obj, sort_keys=True, ensure_ascii=False)\<close> writes the keys of \<open>obj\<close> in sorted
  order: it is the serializer \<open>dumps\<close> (a parameter) applied to the object with its keys
  sorted; the values of \<open>obj\<close> are scalars and lists of scalars.
  \<open>hashlib.sha256(canonical.encode('utf-8')).hexdigest()\<close> is the parameter \<open>sha256\<close>.
  The recursive calls are made where the loop makes them, on the node-valued fields and on
  the node items of the lists, in field order.
\<close>

fun ast_to_aston :: "(json \<Rightarrow> string) \<Rightarrow> (string \<Rightarrow> string) \<Rightarrow> ast \<Rightarrow> string \<times> quad list" where
  "ast_to_aston dumps sha256 (AST class_name fs) =
     (case fields_loop (map (map_prod id (map_aston_field (ast_to_aston dumps sha256))) fs)
             ([], [(''_type'', JStr class_name)], []) of
        (all_tuples, obj, fdata) \<Rightarrow>
          (let canonical = dumps (JObj (sort_key fst obj));
               content_hash = sha256 canonical;
               node_tuples = (content_hash, ''_type'', None, AStr class_name) #
                               concat (map (node_tuples_of content_hash) fdata)
           in (content_hash, all_tuples @ node_tuples)))"

section \<open>aston.py: decoding\<close>

text \<open>
  Modelled from the spec: \<open>aston_read\<close> is imported from \<open>aston\<close> by
  \<open>test_aston_fuzz_mutations.py\<close> but is not defined in the \<open>aston.py\<close> at hand.  The model
  follows the words of the specification: group the tuples by node hash, infer the shape of
  each field from whether indices are present, resolve child references transitively, and
  fail with \<open>SchemaError\<close> when a referenced child hash is missing.  A value is taken for a
  child reference when it is a string of the shape of a content hash (64 lowercase
  hexadecimal characters); the root is the node of the last tuple (the encoding is
  post-order).  The recursion follows hash references, which a malformed tuple sequence can
  make cyclic, so it is bounded by a fuel; \<open>OutOfFuel\<close> is not returning.
\<close>

datatype decode_error = SchemaError | OutOfFuel

definition is_hash :: "string \<Rightarrow> bool" where
  "is_hash s \<longleftrightarrow> length s = 64 \<and> list_all (\<lambda>c. c \<in> set ''0123456789abcdef'') s"

text \<open>Modelled from the spec: the elements of a list in order of first appearance.\<close>

fun uniq :: "'a list \<Rightarrow> 'a list" where
  "uniq [] = []"
| "uniq (x # xs) = x # uniq (filter (\<lambda>y. y \<noteq> x) xs)"

fun sequence :: "('e + 'a) list \<Rightarrow> 'e + 'a list" where
  "sequence [] = Inr []"
| "sequence (Inl e # rs) = Inl e"
| "sequence (Inr x # rs) = (case sequence rs of Inl e \<Rightarrow> Inl e | Inr xs \<Rightarrow> Inr (x # xs))"

text \<open>Modelled from the spec: a value is a scalar literal or a child's node hash; \<open>decode\<close>
  reconstructs the node of a hash.\<close>

definition resolve_field ::
  "(string \<Rightarrow> decode_error + ast) \<Rightarrow> atom \<Rightarrow> decode_error + ast aston_field" where
  "resolve_field decode v =
     (case v of
        AStr s \<Rightarrow> if is_hash s then (case decode s of Inl e \<Rightarrow> Inl e | Inr c \<Rightarrow> Inr (FieldNode c))
                  else Inr (FieldAtom v)
      | _ \<Rightarrow> Inr (FieldAtom v))"

definition resolve_item ::
  "(string \<Rightarrow> decode_error + ast) \<Rightarrow> atom \<Rightarrow> decode_error + ast aston_item" where
  "resolve_item decode v =
     (case v of
        AStr s \<Rightarrow> if is_hash s then (case decode s of Inl e \<Rightarrow> Inl e | Inr c \<Rightarrow> Inr (ItemNode c))
                  else Inr (ItemAtom v)
      | _ \<Rightarrow> Inr (ItemAtom v))"

text \<open>Modelled from the spec: the tuples of one field of one node.  Without indices the
  field is a scalar or a single child and has one tuple; with indices it is a sequence,
  whose positions must be \<open>0, 1, \<dots>\<close> without gap.\<close>

definition decode_field ::
  "(string \<Rightarrow> decode_error + ast) \<Rightarrow> quad list \<Rightarrow> decode_error + ast aston_field" where
  "decode_field decode qs =
     (if list_all (\<lambda>q. fst (snd (snd q)) = None) qs then
        (case qs of [q] \<Rightarrow> resolve_field decode (snd (snd (snd q))) | _ \<Rightarrow> Inl SchemaError)
      else
        (let sorted_qs = sort_key (\<lambda>q. case fst (snd (snd q)) of Some i \<Rightarrow> i | None \<Rightarrow> 0) qs
         in if map (\<lambda>q. fst (snd (snd q))) sorted_qs = map Some [0 ..< length qs]
            then (case sequence (map (\<lambda>q. resolve_item decode (snd (snd (snd q)))) sorted_qs) of
                    Inl e \<Rightarrow> Inl e
                  | Inr items \<Rightarrow> Inr (FieldList items))
            else Inl SchemaError))"

text \<open>Modelled from the spec: the node of a hash, from the group of its tuples (each taken
  once: a subtree that occurs several times is encoded several times).  A hash without
  tuples is a missing node.\<close>

primrec decode_node :: "nat \<Rightarrow> quad list \<Rightarrow> string \<Rightarrow> decode_error + ast" where
  "decode_node 0 quads h = Inl OutOfFuel"
| "decode_node (Suc fuel) quads h =
     (let g = uniq (filter (\<lambda>q. fst q = h) quads)
      in case map (\<lambda>q. snd (snd (snd q))) (filter (\<lambda>q. fst (snd q) = ''_type'') g) of
           [AStr class_name] \<Rightarrow>
             (let keys = uniq (map (\<lambda>q. fst (snd q)) (filter (\<lambda>q. fst (snd q) \<noteq> ''_type'') g))
              in case sequence (map (\<lambda>k. decode_field (decode_node fuel quads)
                                           (filter (\<lambda>q. fst (snd q) = k) g)) keys) of
                   Inl e \<Rightarrow> Inl e
                 | Inr vs \<Rightarrow> Inr (AST class_name (zip keys vs)))
         | _ \<Rightarrow> Inl SchemaError)"

definition aston_read :: "nat \<Rightarrow> quad list \<Rightarrow> decode_error + ast" where
  "aston_read fuel quads = (if quads = [] then Inl SchemaError else decode_node fuel quads (fst (last quads)))"

section \<open>Auxiliary definitions for the proofs\<close>

text \<open>Reading a decimal rendering back; the left inverse of \<^const>\<open>str_nat\<close>.\<close>

definition nat_of_str :: "string \<Rightarrow> nat" where
  "nat_of_str s = foldl (\<lambda>a c. 10 * a + (of_char c - 48)) 0 s"

text \<open>Reading a stored record: \<open>data[field]\<close> and \<open>data[field][lang]\<close>, \<open>None\<close> where Python
  would raise.\<close>

definition lookup_field :: "json \<Rightarrow> string \<Rightarrow> json option" where
  "lookup_field data field = (case data of JObj kvs \<Rightarrow> map_of kvs field | _ \<Rightarrow> None)"

definition lookup_entry :: "json \<Rightarrow> string \<Rightarrow> string \<Rightarrow> json option" where
  "lookup_entry data field lang = (case lookup_field data field of Some d \<Rightarrow> lookup_field d lang | None \<Rightarrow> None)"

subsection \<open>The post-order description of the ASTON tuples\<close>

text \<open>The child nodes of a node, field by field, list items in list order.\<close>

fun item_nodes :: "'n aston_item \<Rightarrow> 'n list" where
  "item_nodes (ItemNode c) = [c]"
| "item_nodes (ItemAtom a) = []"

fun field_nodes :: "'n aston_field \<Rightarrow> 'n list" where
  "field_nodes (FieldNode c) = [c]"
| "field_nodes (FieldList items) = concat (map item_nodes items)"
| "field_nodes v = []"

definition children :: "ast \<Rightarrow> ast list" where
  "children n = concat (map (\<lambda>(k, v). field_nodes v) (ast_fields n))"

lemma field_nodes_subset [termination_simp]: "c \<in> set (field_nodes v) \<Longrightarrow> c \<in> set_aston_field v"
proof (cases v)
  case (FieldList items)
  assume "c \<in> set (field_nodes v)"
  with FieldList obtain it where it: "it \<in> set items" "c \<in> set (item_nodes it)" by auto
  from it(2) have "c \<in> set_aston_item it" by (cases it) auto
  with it(1) show ?thesis using FieldList by auto
qed auto

text \<open>The nodes of a tree in post-order: the subtrees of the children in order, then the
  node itself.\<close>

fun post_order :: "ast \<Rightarrow> ast list" where
  "post_order (AST class_name fs) =
     concat (map (\<lambda>(k, v). concat (map post_order (field_nodes v))) fs) @ [AST class_name fs]"

text \<open>The tuples a node contributes for itself, as the format describes them, given the
  hash \<open>h\<close> of the node and the hash \<open>hash_of c\<close> of every child \<open>c\<close>: one tuple without an
  index for a field that is \<open>None\<close>, a scalar or a single child, whose value is the scalar or
  the child's hash; one tuple per item, indexed by its position, for a list-valued field.\<close>

fun item_value :: "('n \<Rightarrow> string) \<Rightarrow> 'n aston_item \<Rightarrow> atom" where
  "item_value hash_of (ItemNode c) = AStr (hash_of c)"
| "item_value hash_of (ItemAtom a) = a"

fun field_quads :: "('n \<Rightarrow> string) \<Rightarrow> string \<Rightarrow> string \<times> 'n aston_field \<Rightarrow> quad list" where
  "field_quads hash_of h (k, FieldAtom a) = [(h, k, None, a)]"
| "field_quads hash_of h (k, FieldNode c) = [(h, k, None, AStr (hash_of c))]"
| "field_quads hash_of h (k, FieldList items) =
     map (\<lambda>(i, it). (h, k, Some i, item_value hash_of it)) (enumerate 0 items)"
| "field_quads hash_of h (k, FieldOther r) = []"

definition own_quads :: "(json \<Rightarrow> string) \<Rightarrow> (string \<Rightarrow> string) \<Rightarrow> ast \<Rightarrow> quad list" where
  "own_quads dumps sha256 n =
     (fst (ast_to_aston dumps sha256 n), ''_type'', None, AStr (cls n)) #
       concat (map (field_quads (\<lambda>c. fst (ast_to_aston dumps sha256 c)) (fst (ast_to_aston dumps sha256 n)))
                 (ast_fields n))"

definition distinct_fields :: "ast \<Rightarrow> bool" where
  "distinct_fields n = list_all (\<lambda>m. distinct (map fst (ast_fields m))) (post_order n)"

subsection \<open>Concrete stand-ins for the library parameters\<close>

text \<open>A small serializer and a transparent digest, used where a closed example needs
  concrete values for the parameters \<open>dumps\<close> and \<open>sha256\<close>.  They are not \<open>json.dumps\<close> and
  SHA-256: the serializer writes a string between angle brackets and does not escape, and the digest is the text itself, so that equal
  digests mean equal canonical texts.\<close>

fun join :: "string \<Rightarrow> string list \<Rightarrow> string" where
  "join sep [] = []"
| "join sep [x] = x"
| "join sep (x # y # ys) = x @ sep @ join sep (y # ys)"

fun json_text :: "json \<Rightarrow> string" where
  "json_text JNull = ''null''"
| "json_text (JBool b) = (if b then ''true'' else ''false'')"
| "json_text (JInt i) = (if i < 0 then ''-'' else []) @ str_nat (nat \<bar>i\<bar>)"
| "json_text (JFloat x) = ''float '' @ str_nat (unat x)"
| "json_text (JStr s) = ''<'' @ s @ ''>''"
| "json_text (JArr xs) = ''['' @ join '', '' (map json_text xs) @ '']''"
| "json_text (JObj kvs) =
     ''{'' @ join '', '' (map (\<lambda>(k, v). ''<'' @ k @ ''>: '' @ json_text v) kvs) @ ''}''"

definition plain_digest :: "string \<Rightarrow> string" where
  "plain_digest s = s"

subsection \<open>Reading the components of a tuple\<close>

definition quad_hash :: "quad \<Rightarrow> string" where "quad_hash q = fst q"
definition quad_key :: "quad \<Rightarrow> string" where "quad_key q = fst (snd q)"
definition quad_index :: "quad \<Rightarrow> nat option" where "quad_index q = fst (snd (snd q))"
definition quad_value :: "quad \<Rightarrow> atom" where "quad_value q = snd (snd (snd q))"

text \<open>The \<open>field_data\<close> entry the loop of \<open>ast_to_aston\<close> records for a field.\<close>

fun encoded_data :: "('n \<Rightarrow> string) \<Rightarrow> string \<times> 'n aston_field \<Rightarrow> field_data pydict" where
  "encoded_data hash_of (k, FieldAtom a) = [(k, Scalar a)]"
| "encoded_data hash_of (k, FieldNode c) = [(k, Scalar (AStr (hash_of c)))]"
| "encoded_data hash_of (k, FieldList items) = [(k, ListData (map (item_value hash_of) items))]"
| "encoded_data hash_of (k, FieldOther r) = []"

subsection \<open>Structural identity of trees\<close>

text \<open>Two nodes are structurally identical when they have the same class name and the same
  field names, and the values of each field agree: equal scalars (and equal values of
  other types), structurally identical children, lists of the same length whose items
  agree position by position.  The order in which the fields were set is not compared.
  \<^const>\<open>rel_aston_field\<close> lifts a relation on nodes to field values in exactly this way.\<close>

fun same_structure :: "ast \<Rightarrow> ast \<Rightarrow> bool" where
  "same_structure (AST c1 fs1) (AST c2 fs2) =
     (c1 = c2 \<and> set (map fst fs1) = set (map fst fs2) \<and>
      list_all (\<lambda>(k, v1). case map_of fs2 k of
                   None \<Rightarrow> False
                 | Some v2 \<Rightarrow> rel_aston_field same_structure v1 v2) fs1)"

text \<open>The value \<open>obj[field]\<close> that the loop of \<open>ast_to_aston\<close> stores for a field.\<close>

fun field_json :: "('n \<Rightarrow> string) \<Rightarrow> 'n aston_field \<Rightarrow> json option" where
  "field_json hash_of (FieldAtom a) = Some (atom_json a)"
| "field_json hash_of (FieldNode c) = Some (JStr (hash_of c))"
| "field_json hash_of (FieldList items) = Some (JArr (map (\<lambda>it. atom_json (item_value hash_of it)) items))"
| "field_json hash_of (FieldOther r) = None"

subsection \<open>A concrete renderer and the projection to the hashed rendering\<close>

text \<open>A stand-in for the parameter \<open>unparse\<close> in closed examples: it writes a module out
  constructor by constructor, in the manner of \<open>ast.dump\<close>.  It is not \<open>ast.unparse\<close>; like
  \<open>ast.unparse\<close> it writes every identifier of the tree into its output.\<close>

fun pyval_dump :: "pyval \<Rightarrow> string" where
  "pyval_dump PNone = ''None''"
| "pyval_dump (PStr s) = ''<'' @ s @ ''>''"
| "pyval_dump (PInt i) = (if i < 0 then ''-'' else []) @ str_nat (nat \<bar>i\<bar>)"
| "pyval_dump (PBool b) = (if b then ''True'' else ''False'')"
| "pyval_dump (PFloat x) = ''float '' @ str_nat (unat x)"
| "pyval_dump (POther r) = r"

fun alias_dump :: "import_alias \<Rightarrow> string" where
  "alias_dump (Alias name None) = name"
| "alias_dump (Alias name (Some a)) = name @ '' as '' @ a"

fun ast_dump :: "node \<Rightarrow> string" where
  "ast_dump (Import names) = ''Import('' @ join '', '' (map alias_dump names) @ '')''"
| "ast_dump (ImportFrom modname names level) =
     ''ImportFrom('' @ (case modname of None \<Rightarrow> ''None'' | Some m \<Rightarrow> m) @ '', '' @
       join '', '' (map alias_dump names) @ '')''"
| "ast_dump (FunctionDef name args stmts decorator_list returns type_comment type_params) =
     ''FunctionDef('' @ name @ '', '' @ ast_dump args @ '', ['' @ join '', '' (map ast_dump stmts) @ ''], ['' @
       join '', '' (map ast_dump decorator_list) @ ''], '' @
       (case returns of None \<Rightarrow> ''None'' | Some r \<Rightarrow> ast_dump r) @ '', ['' @
       join '', '' (map ast_dump type_params) @ ''])''"
| "ast_dump (Name i ctx) = ''Name('' @ i @ '')''"
| "ast_dump (Arg a annotation type_comment) =
     ''arg('' @ a @ (case annotation of None \<Rightarrow> [] | Some e \<Rightarrow> '': '' @ ast_dump e) @ '')''"
| "ast_dump (Expr v) = ''Expr('' @ ast_dump v @ '')''"
| "ast_dump (Constant v kind) = ''Constant('' @ pyval_dump v @ '')''"
| "ast_dump (Attribute v attr ctx) = ''Attribute('' @ ast_dump v @ '', '' @ attr @ '')''"
| "ast_dump (Other class_name fs) =
     class_name @ ''('' @
       join '', '' (map (\<lambda>(k, f). k @ ''='' @ (case f of
                             FAtom a \<Rightarrow> pyval_dump a
                           | FNode n \<Rightarrow> ast_dump n
                           | FList its \<Rightarrow> ''['' @ join '', '' (map (\<lambda>i. case i of INode n \<Rightarrow> ast_dump n
                                                                     | IAtom a \<Rightarrow> pyval_dump a) its) @ '']'')) fs) @
       '')''"

definition module_dump :: "py_module \<Rightarrow> string" where
  "module_dump tree = ''Module(['' @ join '', '' (map ast_dump (body tree)) @ ''])''"

text \<open>The second component of the result of \<open>normalize_ast\<close>, the rendering without the
  docstring that \<open>add_function\<close> hashes, or the exception.\<close>

definition without_docstring_code ::
  "py_error + (string \<times> string \<times> string \<times> string pydict \<times> string pydict) \<Rightarrow> py_error + string" where
  "without_docstring_code r = (case r of Inl e \<Rightarrow> Inl e | Inr (with_doc, without_doc, rest) \<Rightarrow> Inr without_doc)"

text \<open>Two function definitions carry the same logic for \<open>normalize_ast\<close> when they are equal
  once a leading docstring is removed, have the same name, and hold the same identifiers in
  their \<open>Name\<close> and \<open>arg\<close> nodes.\<close>

definition same_logic :: "node \<Rightarrow> node \<Rightarrow> bool" where
  "same_logic fd1 fd2 \<longleftrightarrow>
     is_FunctionDef fd1 \<and> is_FunctionDef fd2 \<and>
     without_docstring fd1 = without_docstring fd2 \<and>
     function_name fd1 = function_name fd2 \<and>
     List.map_filter name_of_node (walk fd1) = List.map_filter name_of_node (walk fd2)"

subsection \<open>Renaming the identifiers of a function\<close>

text \<open>Renaming by \<open>r\<close>: every \<open>Name\<close> id, every \<open>arg\<close> name and every function name in the
  tree is replaced by its image.\<close>

fun rename :: "(string \<Rightarrow> string) \<Rightarrow> node \<Rightarrow> node" where
  "rename r (FunctionDef name args stmts decorator_list returns type_comment type_params) =
     FunctionDef (r name) (rename r args) (map (rename r) stmts) (map (rename r) decorator_list)
       (map_option (rename r) returns) type_comment (map (rename r) type_params)"
| "rename r (Arg a annotation type_comment) = Arg (r a) (map_option (rename r) annotation) type_comment"
| "rename r (Name i ctx) = Name (r i) ctx"
| "rename r (Expr v) = Expr (rename r v)"
| "rename r (Attribute v attr ctx) = Attribute (rename r v) attr ctx"
| "rename r (Other class_name fs) = Other class_name (map (map_prod id (map_field (rename r))) fs)"
| "rename r n = n"

fun ident_of_node :: "node \<Rightarrow> string option" where
  "ident_of_node (Name i ctx) = Some i"
| "ident_of_node (Arg a annotation type_comment) = Some a"
| "ident_of_node (FunctionDef name args stmts decorator_list returns type_comment type_params) = Some name"
| "ident_of_node n = None"

text \<open>The identifiers of a tree (of its \<open>Name\<close>, \<open>arg\<close> and \<open>FunctionDef\<close> nodes), the names
  used in it (of its \<open>Name\<close> and \<open>arg\<close> nodes, as \<open>create_name_mapping\<close> collects them),
  and the identifiers inside the annotations of its \<open>arg\<close> nodes.\<close>

definition idents :: "node \<Rightarrow> string set" where
  "idents t = set (List.map_filter ident_of_node (walk t))"

definition used_names :: "node \<Rightarrow> string set" where
  "used_names t = set (List.map_filter name_of_node (walk t))"

fun annotation_of :: "node \<Rightarrow> node list" where
  "annotation_of (Arg a (Some e) type_comment) = [e]"
| "annotation_of n = []"

definition annotation_idents :: "node \<Rightarrow> string set" where
  "annotation_idents t =
     set (concat (map (\<lambda>n. concat (map (\<lambda>e. List.map_filter ident_of_node (walk e)) (annotation_of n))) (walk t)))"

text \<open>The names \<open>create_name_mapping\<close> never maps, for the (sorted) imports of a module:
  the imported names after the rewriting of the \<open>ouverture\<close> imports, the built-in names and
  the aliases of the \<open>ouverture\<close> imports.\<close>

definition excluded_names :: "string set \<Rightarrow> node list \<Rightarrow> string set" where
  "excluded_names builtin_names imports0 =
     (case rewrite_ouverture_imports imports0 of
        (imports, alias_mapping) \<Rightarrow>
          set (concat (map imported_by imports)) \<union> builtin_names \<union> set (map snd alias_mapping))"

text \<open>A renaming \<open>r\<close> of the function \<open>fd\<close> that \<open>normalize_ast\<close> cannot see, given the excluded
  names \<open>X\<close>: it is injective on the identifiers of \<open>fd\<close>; it leaves an excluded name
  unchanged and maps no other identifier to an excluded name; it leaves unchanged the name of
  a nested function that no \<open>Name\<close> node refers to, and the identifiers inside parameter
  annotations; and on the collected names (the used names that are neither excluded nor the
  function's name) it preserves the order.\<close>

definition order_preserving_renaming :: "(string \<Rightarrow> string) \<Rightarrow> string set \<Rightarrow> node \<Rightarrow> bool" where
  "order_preserving_renaming r X fd \<longleftrightarrow>
     (\<forall>x \<in> idents fd. \<forall>y \<in> idents fd. r x = r y \<longrightarrow> x = y) \<and>
     (\<forall>x \<in> idents fd. x \<in> X \<longrightarrow> r x = x) \<and>
     (\<forall>x \<in> idents fd. x \<notin> X \<longrightarrow> r x \<notin> X) \<and>
     (\<forall>x \<in> idents fd. x \<notin> used_names fd \<and> x \<noteq> function_name fd \<longrightarrow> r x = x) \<and>
     (\<forall>x \<in> annotation_idents fd. r x = x) \<and>
     (\<forall>x \<in> used_names fd - X - {function_name fd}. \<forall>y \<in> used_names fd - X - {function_name fd}.
        x < y \<longrightarrow> r x < r y)"

text \<open>What the transformers need of a node for the renamed tree and the original to come
  out equal, under the name mappings \<open>fm2\<close> of the renamed unit and \<open>fm1\<close> of the original.\<close>

fun agrees :: "(string \<Rightarrow> string) \<Rightarrow> string pydict \<Rightarrow> string pydict \<Rightarrow> string pydict \<Rightarrow> node \<Rightarrow> bool" where
  "agrees r alias_mapping fm1 fm2 (Name i ctx) =
     (visit fm2 (replace_calls alias_mapping (Name (r i) ctx)) = visit fm1 (replace_calls alias_mapping (Name i ctx)))"
| "agrees r alias_mapping fm1 fm2 (Arg a annotation type_comment) =
     (mapped fm2 (r a) = mapped fm1 a \<and> map_option (rename r) annotation = annotation)"
| "agrees r alias_mapping fm1 fm2 (FunctionDef name args stmts decorator_list returns type_comment type_params) =
     (mapped fm2 (r name) = mapped fm1 name)"
| "agrees r alias_mapping fm1 fm2 n = True"

subsection \<open>Trees that the tuples determine\<close>

text \<open>A digest with the shape of a content hash, for closed examples: the hexadecimal
  text of the first 32 characters, padded with zeros.  It is not SHA-256.\<close>

definition hex_digit :: "nat \<Rightarrow> char" where
  "hex_digit n = ''0123456789abcdef'' ! (n mod 16)"

definition hex_digest :: "string \<Rightarrow> string" where
  "hex_digest s =
     take 64 (concat (map (\<lambda>c. [hex_digit (of_char c div 16), hex_digit (of_char c)]) s) @ replicate 64 CHR ''0'')"

text \<open>The trees for which the tuples say everything: every node has distinct field names,
  none of them \<open>_type\<close>; every field value is a scalar, a child or a non-empty list (an empty
  list and a value of another type leave no tuple); no string of the tree has the shape of
  a content hash; and the hashes of the nodes have that shape and tell the nodes apart.\<close>

fun atom_ok :: "atom \<Rightarrow> bool" where
  "atom_ok (AStr s) = (\<not> is_hash s)"
| "atom_ok a = True"

fun item_ok :: "'n aston_item \<Rightarrow> bool" where
  "item_ok (ItemAtom a) = atom_ok a"
| "item_ok (ItemNode c) = True"

fun field_ok :: "'n aston_field \<Rightarrow> bool" where
  "field_ok (FieldAtom a) = atom_ok a"
| "field_ok (FieldList items) = (items \<noteq> [] \<and> list_all item_ok items)"
| "field_ok (FieldNode c) = True"
| "field_ok (FieldOther r) = False"

definition node_ok :: "ast \<Rightarrow> bool" where
  "node_ok n \<longleftrightarrow>
     distinct (map fst (ast_fields n)) \<and> ''_type'' \<notin> set (map fst (ast_fields n)) \<and>
     list_all (\<lambda>(k, v). field_ok v) (ast_fields n)"

definition decodable :: "(json \<Rightarrow> string) \<Rightarrow> (string \<Rightarrow> string) \<Rightarrow> ast \<Rightarrow> bool" where
  "decodable dumps sha256 t \<longleftrightarrow>
     list_all node_ok (post_order t) \<and>
     list_all (\<lambda>m. is_hash (fst (ast_to_aston dumps sha256 m))) (post_order t) \<and>
     list_all (\<lambda>m1. list_all (\<lambda>m2. fst (ast_to_aston dumps sha256 m1) = fst (ast_to_aston dumps sha256 m2) \<longrightarrow> m1 = m2)
                       (post_order t)) (post_order t)"

section \<open>Properties of extract_function_def\<close>

lemma import_not_FunctionDef: "is_import n \<Longrightarrow> \<not> is_FunctionDef n"
  by (cases n) auto

lemma extract_loop_eq:
  "extract_loop ns imps fd =
     (if (fd \<noteq> None \<and> filter is_FunctionDef ns \<noteq> []) \<or> 1 < length (filter is_FunctionDef ns)
      then Inl (ValueError ''Only one function definition is allowed per file'')
      else Inr (if filter is_FunctionDef ns = [] then fd else Some (hd (filter is_FunctionDef ns)),
                imps @ filter is_import ns))"
proof (induction ns arbitrary: imps fd)
  case Nil
  show ?case by simp
next
  case (Cons n ns)
  show ?case
  proof (cases "is_import n")
    case True
    then show ?thesis using Cons.IH import_not_FunctionDef[OF True] by simp
  next
    case False
    note ni = this
    show ?thesis
    proof (cases "is_FunctionDef n")
      case True
      then show ?thesis using ni Cons.IH[of imps "Some n"]
        by (cases "filter is_FunctionDef ns") auto
    next
      case False
      then show ?thesis using ni Cons.IH by simp
    qed
  qed
qed

lemma extract_function_def_eq:
  "extract_function_def tree =
     (case filter is_FunctionDef (body tree) of
        [] \<Rightarrow> Inl (ValueError ''No function definition found in file'')
      | [fd] \<Rightarrow> Inr (fd, filter is_import (body tree))
      | _ \<Rightarrow> Inl (ValueError ''Only one function definition is allowed per file''))"
  unfolding extract_function_def_def extract_loop_eq
  by (auto split: list.splits)




section \<open>Properties of add_function\<close>

lemma rsplit_at_append:
  assumes "CHR ''@'' \<notin> set lang"
  shows "rsplit_at (file_path @ ''@'' @ lang) = (file_path, lang)"
proof -
  have r: "rev (file_path @ ''@'' @ lang) = rev lang @ CHR ''@'' # rev file_path" by simp
  have a: "\<And>x. x \<in> set (rev lang) \<Longrightarrow> x \<noteq> CHR ''@''" using assms by auto
  have t: "takeWhile (\<lambda>c. c \<noteq> CHR ''@'') (rev lang @ CHR ''@'' # rev file_path) = rev lang"
    using takeWhile_append2[of "rev lang" "\<lambda>c. c \<noteq> CHR ''@''" "CHR ''@'' # rev file_path"] a by simp
  have d: "dropWhile (\<lambda>c. c \<noteq> CHR ''@'') (rev lang @ CHR ''@'' # rev file_path) = CHR ''@'' # rev file_path"
    using dropWhile_append2[of "rev lang" "\<lambda>c. c \<noteq> CHR ''@''" "CHR ''@'' # rev file_path"] a by simp
  show ?thesis unfolding rsplit_at_def r t d by simp
qed

text \<open>
  Claim C6, as the code has it.  For an argument \<open>file_path@lang\<close> (the language code is what
  follows the last \<open>@\<close>), \<open>add_function\<close> stops with the language-code error exactly when
  the code is not 3 characters long, and then the world is the one it was called in: no
  file-system access has been logged, nothing was created or written.
\<close>

theorem add_function_language_code:
  assumes "CHR ''@'' \<notin> set lang"
  shows "((\<exists>l. fst (add_function parse unparse cleandoc sha256 builtin_names (file_path @ ''@'' @ lang) w)
              = Exit1 (BadLanguageCode l)) \<longleftrightarrow> length lang \<noteq> 3) \<and>
         (length lang \<noteq> 3 \<longrightarrow>
            add_function parse unparse cleandoc sha256 builtin_names (file_path @ ''@'' @ lang) w
              = (Exit1 (BadLanguageCode lang), w))"
  unfolding add_function_def rsplit_at_append[OF assms]
  by (auto simp: Let_def split: option.splits sum.splits prod.splits)

theorem add_function_language_code_witness:
  "CHR ''@'' \<notin> set ''fr'' \<and> length ''fr'' \<noteq> 3 \<and>
   add_function (\<lambda>s. None) (\<lambda>m. []) (\<lambda>s. s) (\<lambda>s. s) {} (''a@b.py'' @ ''@'' @ ''fr'')
       \<lparr>source_files = [''a@b.py'' \<mapsto> ''def f(): pass''], dirs = {}, json_files = Map.empty, accesses = []\<rparr>
     = (Exit1 (BadLanguageCode ''fr''),
        \<lparr>source_files = [''a@b.py'' \<mapsto> ''def f(): pass''], dirs = {}, json_files = Map.empty, accesses = []\<rparr>)"
  using add_function_language_code
          [of "''fr''" "\<lambda>s. None" "\<lambda>m. []" "\<lambda>s. s" "\<lambda>s. s" "{}" "''a@b.py''"
              "\<lparr>source_files = [''a@b.py'' \<mapsto> ''def f(): pass''], dirs = {}, json_files = Map.empty, accesses = []\<rparr>"]
  by simp

text \<open>
  Claim C6, as stated, fails: a language code of 4 characters lies between 3 and 256, and
  \<open>add_function\<close> rejects it.
\<close>

theorem add_function_language_code_counterexample:
  "3 \<le> length ''engl'' \<and> length ''engl'' \<le> 256 \<and>
   add_function (\<lambda>s. None) (\<lambda>m. []) (\<lambda>s. s) (\<lambda>s. s) {} ''f.py@engl''
       \<lparr>source_files = [''f.py'' \<mapsto> ''def f(): pass''], dirs = {}, json_files = Map.empty, accesses = []\<rparr>
     = (Exit1 (BadLanguageCode ''engl''),
        \<lparr>source_files = [''f.py'' \<mapsto> ''def f(): pass''], dirs = {}, json_files = Map.empty, accesses = []\<rparr>)"
  by (simp add: add_function_def rsplit_at_def)

section \<open>Properties of create_name_mapping\<close>

lemma digit_roundtrip: "d < 10 \<Longrightarrow> (of_char (char_of (48 + d) :: char) :: nat) - 48 = d"
  by (simp add: of_char_of)

lemma nat_of_str_str_nat: "nat_of_str (str_nat n) = n"
proof (induction n rule: str_nat.induct)
  case (1 n)
  show ?case
  proof (cases "n < 10")
    case True
    then show ?thesis using digit_roundtrip[of n] by (simp add: str_nat.simps[of n] nat_of_str_def)
  next
    case False
    have m: "n mod 10 < 10" by simp
    from False 1 have ih: "nat_of_str (str_nat (n div 10)) = n div 10" by simp
    have "nat_of_str (str_nat n) = 10 * nat_of_str (str_nat (n div 10)) + n mod 10"
      using False digit_roundtrip[OF m] by (simp add: str_nat.simps[of n] nat_of_str_def)
    then show ?thesis using ih by simp
  qed
qed

lemma inj_str_nat: "inj str_nat"
  by (rule inj_on_inverseI[where g = nat_of_str]) (rule nat_of_str_str_nat)

lemma inj_designator: "inj designator"
  using inj_str_nat by (auto simp: inj_def designator_def)

lemma designator_eq_iff: "designator x = designator y \<longleftrightarrow> x = y"
  using inj_designator by (auto simp: inj_def)

lemma designator_0: "designator 0 = ''_ouverture_v_0''"
  by code_simp

lemma update_fresh: "k \<notin> fst ` set al \<Longrightarrow> AList.update k v al = al @ [(k, v)]"
  by (induction al) auto

lemma mapping_loop_eq:
  assumes "distinct names" "set names \<inter> fst ` set fwd = {}"
    and "designator ` {c ..< c + length names} \<inter> fst ` set rv = {}"
  shows "mapping_loop names c (fwd, rv) =
           (fwd @ zip names (map designator [c ..< c + length names]),
            rv @ zip (map designator [c ..< c + length names]) names)"
  using assms
proof (induction names arbitrary: c fwd rv)
  case Nil
  show ?case by simp
next
  case (Cons name names)
  have f1: "name \<notin> fst ` set fwd" using Cons.prems(2) by auto
  have "designator c \<in> designator ` {c ..< c + length (name # names)}" by simp
  then have f2: "designator c \<notin> fst ` set rv" using Cons.prems(3) by blast
  have d: "distinct names" and nn: "name \<notin> set names" using Cons.prems(1) by auto
  have p2: "set names \<inter> fst ` set (fwd @ [(name, designator c)]) = {}"
    using Cons.prems(2) nn by auto
  have "designator c \<notin> designator ` {c + 1 ..< c + 1 + length names}"
    by (auto simp: designator_eq_iff)
  then have p3: "designator ` {c + 1 ..< c + 1 + length names} \<inter> fst ` set (rv @ [(designator c, name)]) = {}"
  proof -
    have "designator ` {c + 1 ..< c + 1 + length names} \<subseteq> designator ` {c ..< c + length (name # names)}"
      by (intro image_mono) auto
    with Cons.prems(3) have "designator ` {c + 1 ..< c + 1 + length names} \<inter> fst ` set rv = {}"
      by blast
    with \<open>designator c \<notin> designator ` {c + 1 ..< c + 1 + length names}\<close> show ?thesis
      by auto
  qed
  have up: "[c ..< Suc (c + length names)] = c # [Suc c ..< Suc (c + length names)]"
    by (simp add: upt_conv_Cons del: upt_Suc)
  show ?case
    using Cons.IH[OF d p2 p3]
    by (simp add: update_fresh[OF f1] update_fresh[OF f2] up del: upt_Suc)
qed


lemma create_name_mapping_eq:
  fixes builtin_names fd imps aliases
  defines "ns \<equiv> sorted_list_of_set (collected_names builtin_names fd imps aliases)"
  shows "create_name_mapping builtin_names fd imps aliases =
           ((function_name fd, designator 0) # zip ns (map designator [1 ..< 1 + length ns]),
            (designator 0, function_name fd) # zip (map designator [1 ..< 1 + length ns]) ns)"
proof -
  have fin: "finite (collected_names builtin_names fd imps aliases)"
    by (simp add: collected_names_def Let_def)
  have d: "distinct ns" by (simp add: ns_def)
  have "function_name fd \<notin> collected_names builtin_names fd imps aliases"
    by (simp add: collected_names_def Let_def)
  then have a: "set ns \<inter> fst ` set [(function_name fd, ''_ouverture_v_0'')] = {}"
    using fin by (simp add: ns_def)
  have "designator 0 \<notin> designator ` {1 ..< 1 + length ns}"
    by (auto simp: designator_eq_iff)
  then have b: "designator ` {1 ..< 1 + length ns} \<inter> fst ` set [(''_ouverture_v_0'', function_name fd)] = {}"
    by (simp add: designator_0)
  show ?thesis
    unfolding create_name_mapping_def ns_def[symmetric] mapping_loop_eq[OF d a b]
    by (simp add: designator_0)
qed

lemma map_of_zip_inverse:
  assumes "length xs = length ys" "distinct xs" "distinct ys"
  shows "map_of (zip xs ys) x = Some y \<longleftrightarrow> map_of (zip ys xs) y = Some x"
proof -
  have 1: "map_of (zip xs ys) x = Some y \<longleftrightarrow> (x, y) \<in> set (zip xs ys)"
    using assms by (intro map_of_eq_Some_iff) simp
  have 2: "map_of (zip ys xs) y = Some x \<longleftrightarrow> (y, x) \<in> set (zip ys xs)"
    using assms by (intro map_of_eq_Some_iff) simp
  have 3: "(x, y) \<in> set (zip xs ys) \<longleftrightarrow> (y, x) \<in> set (zip ys xs)"
    by (auto simp: in_set_zip)
  show ?thesis using 1 2 3 by simp
qed

text \<open>
  Claim C10.  The two mappings returned by \<open>create_name_mapping\<close> are inverse to each other:
  the function's name is mapped to \<open>_ouverture_v_0\<close>, the \<open>i\<close>-th of the remaining collected
  names in ascending order (counting from 0) to \<open>_ouverture_v_\<close> followed by \<open>i + 1\<close>, nothing
  else is mapped, the forward mapping is injective, and the reverse mapping sends a
  designator to a name exactly when the forward mapping sends that name to the designator.
\<close>

theorem create_name_mapping_inverse:
  assumes "create_name_mapping builtin_names function_def imps ouverture_aliases = (forward_mapping, reverse_mapping)"
    and "ns = sorted_list_of_set (collected_names builtin_names function_def imps ouverture_aliases)"
  shows "map_of forward_mapping (function_name function_def) = Some ''_ouverture_v_0'' \<and>
         (\<forall>i < length ns. map_of forward_mapping (ns ! i) = Some (''_ouverture_v_'' @ str_nat (i + 1))) \<and>
         sorted ns \<and> distinct ns \<and>
         dom (map_of forward_mapping) = insert (function_name function_def) (set ns) \<and>
         inj_on (map_of forward_mapping) (dom (map_of forward_mapping)) \<and>
         (\<forall>x y. map_of forward_mapping x = Some y \<longleftrightarrow> map_of reverse_mapping y = Some x)"
proof -
  let ?f = "function_name function_def"
  let ?ds = "map designator [1 ..< 1 + length ns]"
  have fw: "forward_mapping = (?f, designator 0) # zip ns ?ds"
    and rv: "reverse_mapping = (designator 0, ?f) # zip ?ds ns"
    using assms create_name_mapping_eq[of builtin_names function_def imps ouverture_aliases] by simp_all
  have fin: "finite (collected_names builtin_names function_def imps ouverture_aliases)"
    by (simp add: collected_names_def Let_def)
  have d: "distinct ns" and s: "sorted ns" by (simp_all add: assms(2))
  have fn: "?f \<notin> set ns" using fin by (simp add: assms(2) collected_names_def Let_def)
  have dd: "distinct (designator 0 # ?ds)"
    by (auto simp: distinct_map designator_eq_iff intro!: inj_onI)
  have len: "length (?f # ns) = length (designator 0 # ?ds)" by (simp del: upt_Suc)
  have dx: "distinct (?f # ns)" using d fn by simp
  have fw': "forward_mapping = zip (?f # ns) (designator 0 # ?ds)" using fw by simp
  have rv': "reverse_mapping = zip (designator 0 # ?ds) (?f # ns)" using rv by simp
  have inv: "map_of forward_mapping x = Some y \<longleftrightarrow> map_of reverse_mapping y = Some x" for x y
    unfolding fw' rv' by (rule map_of_zip_inverse[OF len dx dd])
  have c1: "map_of forward_mapping ?f = Some ''_ouverture_v_0''" by (simp add: fw designator_0)
  have c2: "map_of forward_mapping (ns ! i) = Some (''_ouverture_v_'' @ str_nat (i + 1))" if "i < length ns" for i
  proof -
    have "ns ! i \<noteq> ?f" using fn that by (metis nth_mem)
    moreover have "map_of (zip ns ?ds) (ns ! i) = Some (?ds ! i)"
      using that d by (intro map_of_zip_nth) simp_all
    ultimately show ?thesis using that by (simp add: fw designator_def del: upt_Suc)
  qed
  have c3: "dom (map_of forward_mapping) = insert ?f (set ns)"
    unfolding fw' by (subst dom_map_of_zip[OF len]) simp
  have c4: "inj_on (map_of forward_mapping) (dom (map_of forward_mapping))"
  proof (rule inj_onI)
    fix x x' assume "x \<in> dom (map_of forward_mapping)" "x' \<in> dom (map_of forward_mapping)"
      and e: "map_of forward_mapping x = map_of forward_mapping x'"
    then obtain y where y: "map_of forward_mapping x = Some y" by auto
    with e have "map_of forward_mapping x' = Some y" by simp
    with y inv have "map_of reverse_mapping y = Some x" "map_of reverse_mapping y = Some x'" by simp_all
    then show "x = x'" by simp
  qed
  show ?thesis using c1 c2 s d c3 c4 inv by blast
qed

theorem create_name_mapping_inverse_witness:
  "create_name_mapping {} (FunctionDef ''add'' (Other ''arguments'' [(''args'', FList [INode (Arg ''b'' None None), INode (Arg ''a'' None None)])])
        [Other ''Return'' [(''value'', FNode (Other ''BinOp'' [(''left'', FNode (Name ''a'' Load)), (''op'', FNode (Other ''Add'' [])),
                                                           (''right'', FNode (Name ''b'' Load))]))]] [] None None []) [] {} =
     ([(''add'', ''_ouverture_v_0''), (''a'', ''_ouverture_v_1''), (''b'', ''_ouverture_v_2'')],
      [(''_ouverture_v_0'', ''add''), (''_ouverture_v_1'', ''a''), (''_ouverture_v_2'', ''b'')]) \<and>
   inj_on (map_of [(''add'', ''_ouverture_v_0''), (''a'', ''_ouverture_v_1''), (''b'', ''_ouverture_v_2'')])
     (dom (map_of [(''add'', ''_ouverture_v_0''), (''a'', ''_ouverture_v_1''), (''b'', ''_ouverture_v_2'')])) \<and>
   (\<forall>x y. map_of [(''add'', ''_ouverture_v_0''), (''a'', ''_ouverture_v_1''), (''b'', ''_ouverture_v_2'')] x = Some y \<longleftrightarrow>
          map_of [(''_ouverture_v_0'', ''add''), (''_ouverture_v_1'', ''a''), (''_ouverture_v_2'', ''b'')] y = Some x)"
proof -
  have h: "create_name_mapping {} (FunctionDef ''add'' (Other ''arguments'' [(''args'', FList [INode (Arg ''b'' None None), INode (Arg ''a'' None None)])])
        [Other ''Return'' [(''value'', FNode (Other ''BinOp'' [(''left'', FNode (Name ''a'' Load)), (''op'', FNode (Other ''Add'' [])),
                                                           (''right'', FNode (Name ''b'' Load))]))]] [] None None []) [] {} =
     ([(''add'', ''_ouverture_v_0''), (''a'', ''_ouverture_v_1''), (''b'', ''_ouverture_v_2'')],
      [(''_ouverture_v_0'', ''add''), (''_ouverture_v_1'', ''a''), (''_ouverture_v_2'', ''b'')])"
    by code_simp
  from create_name_mapping_inverse[OF h refl] show ?thesis using h by blast
qed

section \<open>Properties of save_function\<close>

lemma set_entry_Inr:
  assumes "set_entry data field lang v = Inr data'"
  shows "\<exists>kvs d. data = JObj kvs \<and> map_of kvs field = Some (JObj d) \<and>
           data' = JObj (AList.update field (JObj (AList.update lang v d)) kvs)"
  using assms by (cases data) (auto split: option.splits json.splits)

lemma set_entry_field_other:
  assumes "set_entry data field lang v = Inr data'" "k \<noteq> field"
  shows "lookup_field data' k = lookup_field data k"
  using set_entry_Inr[OF assms(1)] assms(2) by (auto simp: lookup_field_def update_conv')

lemma set_entry_entry_same:
  assumes "set_entry data field lang v = Inr data'"
  shows "lookup_entry data' field lang = Some v"
  using set_entry_Inr[OF assms(1)] by (auto simp: lookup_field_def lookup_entry_def update_conv')

lemma set_entry_entry_other:
  assumes "set_entry data field lang v = Inr data'" "(k, l) \<noteq> (field, lang)"
  shows "lookup_entry data' k l = lookup_entry data k l"
  using set_entry_Inr[OF assms(1)] assms(2)
  by (auto simp: lookup_field_def lookup_entry_def update_conv')

lemma set_entry_noop:
  assumes "lookup_entry data field lang = Some v" "\<exists>d. lookup_field data field = Some (JObj d)"
  shows "set_entry data field lang v = Inr data"
proof -
  from assms(2) obtain kvs d where k: "data = JObj kvs" "map_of kvs field = Some (JObj d)"
    by (cases data) (auto simp: lookup_field_def)
  with assms(1) have "map_of d lang = Some v" by (simp add: lookup_entry_def lookup_field_def)
  then have "AList.update lang v d = d" by (rule update_triv)
  moreover have "AList.update field (JObj d) kvs = kvs" using k(2) by (rule update_triv)
  ultimately show ?thesis using k by simp
qed

lemma set_entry_is_obj:
  assumes "set_entry data field lang v = Inr data'"
  shows "\<exists>d. lookup_field data' field = Some (JObj d)"
  using set_entry_Inr[OF assms(1)] by (auto simp: lookup_field_def update_conv')

lemma add_language_data_Inr:
  assumes "add_language_data data lang docstring name_mapping alias_mapping = Inr data'"
  obtains data1 data2 where
    "set_entry data ''docstrings'' lang (JStr docstring) = Inr data1"
    "set_entry data1 ''name_mappings'' lang (str_dict name_mapping) = Inr data2"
    "set_entry data2 ''alias_mappings'' lang (str_dict alias_mapping) = Inr data'"
  using assms unfolding add_language_data_def by (auto split: sum.splits)

lemma add_language_data_idem:
  assumes "add_language_data data lang docstring name_mapping alias_mapping = Inr data'"
  shows "add_language_data data' lang docstring name_mapping alias_mapping = Inr data'"
proof -
  from assms obtain data1 data2 where
    s1: "set_entry data ''docstrings'' lang (JStr docstring) = Inr data1" and
    s2: "set_entry data1 ''name_mappings'' lang (str_dict name_mapping) = Inr data2" and
    s3: "set_entry data2 ''alias_mappings'' lang (str_dict alias_mapping) = Inr data'"
    by (rule add_language_data_Inr)
  have e1: "lookup_entry data' ''docstrings'' lang = Some (JStr docstring)"
    using set_entry_entry_same[OF s1] set_entry_entry_other[OF s2, of "''docstrings''" lang]
      set_entry_entry_other[OF s3, of "''docstrings''" lang] by simp
  have o1: "\<exists>d. lookup_field data' ''docstrings'' = Some (JObj d)"
    using set_entry_is_obj[OF s1] set_entry_field_other[OF s2, of "''docstrings''"]
      set_entry_field_other[OF s3, of "''docstrings''"] by simp
  have e2: "lookup_entry data' ''name_mappings'' lang = Some (str_dict name_mapping)"
    using set_entry_entry_same[OF s2] set_entry_entry_other[OF s3, of "''name_mappings''" lang] by simp
  have o2: "\<exists>d. lookup_field data' ''name_mappings'' = Some (JObj d)"
    using set_entry_is_obj[OF s2] set_entry_field_other[OF s3, of "''name_mappings''"] by simp
  have e3: "lookup_entry data' ''alias_mappings'' lang = Some (str_dict alias_mapping)"
    using set_entry_entry_same[OF s3] by simp
  have o3: "\<exists>d. lookup_field data' ''alias_mappings'' = Some (JObj d)"
    using set_entry_is_obj[OF s3] by simp
  show ?thesis
    unfolding add_language_data_def
    by (simp add: set_entry_noop[OF e1 o1] set_entry_noop[OF e2 o2] set_entry_noop[OF e3 o3])
qed

lemma save_function_None:
  assumes "save_function h l c d nm am w = (None, w1)"
  shows "\<exists>data'. add_language_data (case json_files w (json_path h) of Some stored \<Rightarrow> stored | None \<Rightarrow> new_record h c)
                     l d nm am = Inr data' \<and>
           json_files w1 = (json_files w)(json_path h \<mapsto> data') \<and>
           dirs w1 = dirs w \<union> {[''.ouverture''], objects_dir, hash_dir h}"
  using assms unfolding save_function_def
  by (auto simp: Let_def split: option.splits sum.splits)

lemma add_language_data_new_record:
  "\<exists>data'. add_language_data (new_record h c) l d nm am = Inr data'"
  by (simp add: add_language_data_def new_record_def)

text \<open>
  Claim C8.  Where no record is stored for the hash, \<open>save_function\<close> returns without an
  exception.  Whenever a call of \<open>save_function\<close> has returned without an exception, a second
  call with the same arguments returns without an exception too, and it leaves every stored
  file and every directory as the first call left them: the record of the hash is there,
  its content is what the first call wrote, and the store holds no file beyond the files it
  had before the first call and this one record.
\<close>

theorem save_function_idempotent:
  fixes hash_value lang normalized_code docstring name_mapping alias_mapping w
  defines "first \<equiv> save_function hash_value lang normalized_code docstring name_mapping alias_mapping w"
  defines "second \<equiv> save_function hash_value lang normalized_code docstring name_mapping alias_mapping (snd first)"
  shows "(json_files w (json_path hash_value) = None \<longrightarrow> fst first = None) \<and>
         (fst first = None \<longrightarrow>
            fst second = None \<and>
            json_files (snd second) = json_files (snd first) \<and>
            dirs (snd second) = dirs (snd first) \<and>
            json_files (snd first) (json_path hash_value) \<noteq> None \<and>
            dom (json_files (snd second)) = insert (json_path hash_value) (dom (json_files w)))"
proof (intro conjI impI)
  assume "json_files w (json_path hash_value) = None"
  then show "fst first = None"
    using add_language_data_new_record[of hash_value normalized_code lang docstring name_mapping alias_mapping]
    unfolding first_def save_function_def by (auto simp: Let_def)
next
  assume "fst first = None"
  then have one: "save_function hash_value lang normalized_code docstring name_mapping alias_mapping w = (None, snd first)"
    unfolding first_def by (simp add: prod_eq_iff)
  from save_function_None[OF one] obtain data' where
    a: "add_language_data (case json_files w (json_path hash_value) of Some stored \<Rightarrow> stored
                             | None \<Rightarrow> new_record hash_value normalized_code)
          lang docstring name_mapping alias_mapping = Inr data'"
    and f: "json_files (snd first) = (json_files w)(json_path hash_value \<mapsto> data')"
    and d: "dirs (snd first) = dirs w \<union> {[''.ouverture''], objects_dir, hash_dir hash_value}"
    by blast
  have i: "add_language_data data' lang docstring name_mapping alias_mapping = Inr data'"
    using a by (rule add_language_data_idem)
  have two: "second =
          (None, (snd first)\<lparr>dirs := dirs (snd first) \<union> {[''.ouverture''], objects_dir, hash_dir hash_value},
                    accesses := accesses (snd first) @ [MakeDirs (hash_dir hash_value), PathExists (json_path hash_value),
                                               ReadFile (json_path hash_value), WriteFile (json_path hash_value)],
                    json_files := (json_files (snd first))(json_path hash_value \<mapsto> data')\<rparr>)"
    unfolding second_def save_function_def[of _ _ _ _ _ _ "snd first"] by (simp add: Let_def f i)
  show "fst second = None" by (simp add: two)
  show "json_files (snd second) = json_files (snd first)" by (simp add: two f)
  show "dirs (snd second) = dirs (snd first)" by (auto simp: two d)
  show "json_files (snd first) (json_path hash_value) \<noteq> None" by (simp add: f)
  show "dom (json_files (snd second)) = insert (json_path hash_value) (dom (json_files w))"
    by (simp add: two f)
qed

theorem save_function_idempotent_witness:
  "json_files 
       \<lparr>source_files = Map.empty, dirs = {}, json_files = Map.empty, accesses = []\<rparr> (json_path ''c0ffee'') = None \<and>
   fst (save_function ''c0ffee'' ''eng'' ''def _ouverture_v_0(): pass'' ''Does nothing'' [(''_ouverture_v_0'', ''nop'')] [] 
       \<lparr>source_files = Map.empty, dirs = {}, json_files = Map.empty, accesses = []\<rparr>) = None \<and>
   fst (save_function ''c0ffee'' ''eng'' ''def _ouverture_v_0(): pass'' ''Does nothing'' [(''_ouverture_v_0'', ''nop'')] [] (snd (save_function ''c0ffee'' ''eng'' ''def _ouverture_v_0(): pass'' ''Does nothing'' [(''_ouverture_v_0'', ''nop'')] [] 
       \<lparr>source_files = Map.empty, dirs = {}, json_files = Map.empty, accesses = []\<rparr>))) = None \<and>
   json_files (snd (save_function ''c0ffee'' ''eng'' ''def _ouverture_v_0(): pass'' ''Does nothing'' [(''_ouverture_v_0'', ''nop'')] [] (snd (save_function ''c0ffee'' ''eng'' ''def _ouverture_v_0(): pass'' ''Does nothing'' [(''_ouverture_v_0'', ''nop'')] [] 
       \<lparr>source_files = Map.empty, dirs = {}, json_files = Map.empty, accesses = []\<rparr>)))) =
     json_files (snd (save_function ''c0ffee'' ''eng'' ''def _ouverture_v_0(): pass'' ''Does nothing'' [(''_ouverture_v_0'', ''nop'')] [] 
       \<lparr>source_files = Map.empty, dirs = {}, json_files = Map.empty, accesses = []\<rparr>)) \<and>
   json_files (snd (save_function ''c0ffee'' ''eng'' ''def _ouverture_v_0(): pass'' ''Does nothing'' [(''_ouverture_v_0'', ''nop'')] [] 
       \<lparr>source_files = Map.empty, dirs = {}, json_files = Map.empty, accesses = []\<rparr>)) [''.ouverture'', ''objects'', ''c0'', ''ffee.json''] =
     Some (JObj [(''version'', JInt 0), (''hash'', JStr ''c0ffee''),
                 (''normalized_code'', JStr ''def _ouverture_v_0(): pass''),
                 (''docstrings'', JObj [(''eng'', JStr ''Does nothing'')]),
                 (''name_mappings'', JObj [(''eng'', JObj [(''_ouverture_v_0'', JStr ''nop'')])]),
                 (''alias_mappings'', JObj [(''eng'', JObj [])])])"
proof -
  have h: "json_files 
       \<lparr>source_files = Map.empty, dirs = {}, json_files = Map.empty, accesses = []\<rparr> (json_path ''c0ffee'') = None" by simp
  have c: "json_files (snd (save_function ''c0ffee'' ''eng'' ''def _ouverture_v_0(): pass'' ''Does nothing'' [(''_ouverture_v_0'', ''nop'')] [] 
       \<lparr>source_files = Map.empty, dirs = {}, json_files = Map.empty, accesses = []\<rparr>)) [''.ouverture'', ''objects'', ''c0'', ''ffee.json''] =
     Some (JObj [(''version'', JInt 0), (''hash'', JStr ''c0ffee''),
                 (''normalized_code'', JStr ''def _ouverture_v_0(): pass''),
                 (''docstrings'', JObj [(''eng'', JStr ''Does nothing'')]),
                 (''name_mappings'', JObj [(''eng'', JObj [(''_ouverture_v_0'', JStr ''nop'')])]),
                 (''alias_mappings'', JObj [(''eng'', JObj [])])])"
    by (simp add: save_function_def Let_def new_record_def add_language_data_def str_dict_def
          json_path_def hash_dir_def objects_dir_def)
  from save_function_idempotent[where w = "\<lparr>source_files = Map.empty, dirs = {}, json_files = Map.empty, accesses = []\<rparr>"
         and hash_value = "''c0ffee''" and lang = "''eng''" and normalized_code = "''def _ouverture_v_0(): pass''"
         and docstring = "''Does nothing''" and name_mapping = "[(''_ouverture_v_0'', ''nop'')]" and alias_mapping = "[]"] h c
  show ?thesis by blast
qed

text \<open>
  Claim C9.  When a record is stored for the hash and \<open>save_function\<close> returns, the record
  it leaves has the \<open>version\<close>, \<open>hash\<close> and \<open>normalized_code\<close> it had, and under \<open>docstrings\<close>,
  \<open>name_mappings\<close> and \<open>alias_mappings\<close> (under any field) the entry of every language other
  than the one written is what it was.  The \<open>normalized_code\<close> argument is not used: any
  other value gives the same result and the same world.
\<close>

theorem save_function_frame:
  assumes "json_files w (json_path hash_value) = Some stored"
    and "save_function hash_value lang normalized_code docstring name_mapping alias_mapping w = (None, w')"
  shows "\<exists>stored'. json_files w' (json_path hash_value) = Some stored' \<and>
           lookup_field stored' ''version'' = lookup_field stored ''version'' \<and>
           lookup_field stored' ''hash'' = lookup_field stored ''hash'' \<and>
           lookup_field stored' ''normalized_code'' = lookup_field stored ''normalized_code'' \<and>
           (\<forall>field other. other \<noteq> lang \<longrightarrow> lookup_entry stored' field other = lookup_entry stored field other) \<and>
           save_function hash_value lang other_code docstring name_mapping alias_mapping w = (None, w')"

proof -
  from save_function_None[OF assms(2)] assms(1) obtain data' where
    a: "add_language_data stored lang docstring name_mapping alias_mapping = Inr data'"
    and f: "json_files w' = (json_files w)(json_path hash_value \<mapsto> data')"
    by auto
  from a obtain data1 data2 where
    s1: "set_entry stored ''docstrings'' lang (JStr docstring) = Inr data1" and
    s2: "set_entry data1 ''name_mappings'' lang (str_dict name_mapping) = Inr data2" and
    s3: "set_entry data2 ''alias_mappings'' lang (str_dict alias_mapping) = Inr data'"
    by (rule add_language_data_Inr)
  have fld: "lookup_field data' k = lookup_field stored k"
    if "k \<noteq> ''docstrings''" "k \<noteq> ''name_mappings''" "k \<noteq> ''alias_mappings''" for k
    using set_entry_field_other[OF s1, of k] set_entry_field_other[OF s2, of k]
      set_entry_field_other[OF s3, of k] that by simp
  have ent: "lookup_entry data' field other = lookup_entry stored field other" if "other \<noteq> lang" for field other
    using set_entry_entry_other[OF s1, of field other] set_entry_entry_other[OF s2, of field other]
      set_entry_entry_other[OF s3, of field other] that by simp
  have same: "save_function hash_value lang other_code docstring name_mapping alias_mapping w =
              save_function hash_value lang normalized_code docstring name_mapping alias_mapping w"
    unfolding save_function_def using assms(1) by (simp add: Let_def)
  show ?thesis using f fld ent same assms(2) by simp
qed

theorem save_function_frame_witness:
  "json_files 
       \<lparr>source_files = Map.empty, dirs = {}, json_files = [[''.ouverture'', ''objects'', ''c0'', ''ffee.json''] \<mapsto> 
       (JObj [(''version'', JInt 0), (''hash'', JStr ''c0ffee''),
                 (''normalized_code'', JStr ''def _ouverture_v_0(): pass''),
                 (''docstrings'', JObj [(''eng'', JStr ''Does nothing'')]),
                 (''name_mappings'', JObj [(''eng'', JObj [(''_ouverture_v_0'', JStr ''nop'')])]),
                 (''alias_mappings'', JObj [(''eng'', JObj [])])])], accesses = []\<rparr> (json_path ''c0ffee'') = Some 
       (JObj [(''version'', JInt 0), (''hash'', JStr ''c0ffee''),
                 (''normalized_code'', JStr ''def _ouverture_v_0(): pass''),
                 (''docstrings'', JObj [(''eng'', JStr ''Does nothing'')]),
                 (''name_mappings'', JObj [(''eng'', JObj [(''_ouverture_v_0'', JStr ''nop'')])]),
                 (''alias_mappings'', JObj [(''eng'', JObj [])])]) \<and>
   fst (save_function ''c0ffee'' ''fra'' ''something else'' ''Ne fait rien'' [(''_ouverture_v_0'', ''rien'')] [] 
       \<lparr>source_files = Map.empty, dirs = {}, json_files = [[''.ouverture'', ''objects'', ''c0'', ''ffee.json''] \<mapsto> 
       (JObj [(''version'', JInt 0), (''hash'', JStr ''c0ffee''),
                 (''normalized_code'', JStr ''def _ouverture_v_0(): pass''),
                 (''docstrings'', JObj [(''eng'', JStr ''Does nothing'')]),
                 (''name_mappings'', JObj [(''eng'', JObj [(''_ouverture_v_0'', JStr ''nop'')])]),
                 (''alias_mappings'', JObj [(''eng'', JObj [])])])], accesses = []\<rparr>) = None \<and>
   (\<exists>stored'. json_files (snd (save_function ''c0ffee'' ''fra'' ''something else'' ''Ne fait rien'' [(''_ouverture_v_0'', ''rien'')] [] 
       \<lparr>source_files = Map.empty, dirs = {}, json_files = [[''.ouverture'', ''objects'', ''c0'', ''ffee.json''] \<mapsto> 
       (JObj [(''version'', JInt 0), (''hash'', JStr ''c0ffee''),
                 (''normalized_code'', JStr ''def _ouverture_v_0(): pass''),
                 (''docstrings'', JObj [(''eng'', JStr ''Does nothing'')]),
                 (''name_mappings'', JObj [(''eng'', JObj [(''_ouverture_v_0'', JStr ''nop'')])]),
                 (''alias_mappings'', JObj [(''eng'', JObj [])])])], accesses = []\<rparr>)) (json_path ''c0ffee'') = Some stored' \<and>
      lookup_field stored' ''normalized_code'' = Some (JStr ''def _ouverture_v_0(): pass'') \<and>
      lookup_entry stored' ''docstrings'' ''eng'' = Some (JStr ''Does nothing'') \<and>
      lookup_entry stored' ''docstrings'' ''fra'' = Some (JStr ''Ne fait rien''))"
proof -
  have h1: "json_files 
       \<lparr>source_files = Map.empty, dirs = {}, json_files = [[''.ouverture'', ''objects'', ''c0'', ''ffee.json''] \<mapsto> 
       (JObj [(''version'', JInt 0), (''hash'', JStr ''c0ffee''),
                 (''normalized_code'', JStr ''def _ouverture_v_0(): pass''),
                 (''docstrings'', JObj [(''eng'', JStr ''Does nothing'')]),
                 (''name_mappings'', JObj [(''eng'', JObj [(''_ouverture_v_0'', JStr ''nop'')])]),
                 (''alias_mappings'', JObj [(''eng'', JObj [])])])], accesses = []\<rparr> (json_path ''c0ffee'') = Some 
       (JObj [(''version'', JInt 0), (''hash'', JStr ''c0ffee''),
                 (''normalized_code'', JStr ''def _ouverture_v_0(): pass''),
                 (''docstrings'', JObj [(''eng'', JStr ''Does nothing'')]),
                 (''name_mappings'', JObj [(''eng'', JObj [(''_ouverture_v_0'', JStr ''nop'')])]),
                 (''alias_mappings'', JObj [(''eng'', JObj [])])])"
    by (simp add: json_path_def hash_dir_def objects_dir_def)
  have h2: "fst (save_function ''c0ffee'' ''fra'' ''something else'' ''Ne fait rien'' [(''_ouverture_v_0'', ''rien'')] [] 
       \<lparr>source_files = Map.empty, dirs = {}, json_files = [[''.ouverture'', ''objects'', ''c0'', ''ffee.json''] \<mapsto> 
       (JObj [(''version'', JInt 0), (''hash'', JStr ''c0ffee''),
                 (''normalized_code'', JStr ''def _ouverture_v_0(): pass''),
                 (''docstrings'', JObj [(''eng'', JStr ''Does nothing'')]),
                 (''name_mappings'', JObj [(''eng'', JObj [(''_ouverture_v_0'', JStr ''nop'')])]),
                 (''alias_mappings'', JObj [(''eng'', JObj [])])])], accesses = []\<rparr>) = None"
    by (simp add: save_function_def Let_def add_language_data_def str_dict_def
          json_path_def hash_dir_def objects_dir_def)
  then have h3: "save_function ''c0ffee'' ''fra'' ''something else'' ''Ne fait rien'' [(''_ouverture_v_0'', ''rien'')] [] 
       \<lparr>source_files = Map.empty, dirs = {}, json_files = [[''.ouverture'', ''objects'', ''c0'', ''ffee.json''] \<mapsto> 
       (JObj [(''version'', JInt 0), (''hash'', JStr ''c0ffee''),
                 (''normalized_code'', JStr ''def _ouverture_v_0(): pass''),
                 (''docstrings'', JObj [(''eng'', JStr ''Does nothing'')]),
                 (''name_mappings'', JObj [(''eng'', JObj [(''_ouverture_v_0'', JStr ''nop'')])]),
                 (''alias_mappings'', JObj [(''eng'', JObj [])])])], accesses = []\<rparr> = (None, snd (save_function ''c0ffee'' ''fra'' ''something else'' ''Ne fait rien'' [(''_ouverture_v_0'', ''rien'')] [] 
       \<lparr>source_files = Map.empty, dirs = {}, json_files = [[''.ouverture'', ''objects'', ''c0'', ''ffee.json''] \<mapsto> 
       (JObj [(''version'', JInt 0), (''hash'', JStr ''c0ffee''),
                 (''normalized_code'', JStr ''def _ouverture_v_0(): pass''),
                 (''docstrings'', JObj [(''eng'', JStr ''Does nothing'')]),
                 (''name_mappings'', JObj [(''eng'', JObj [(''_ouverture_v_0'', JStr ''nop'')])]),
                 (''alias_mappings'', JObj [(''eng'', JObj [])])])], accesses = []\<rparr>))"
    by (simp add: prod_eq_iff)
  have h4: "\<exists>stored'. json_files (snd (save_function ''c0ffee'' ''fra'' ''something else'' ''Ne fait rien'' [(''_ouverture_v_0'', ''rien'')] [] 
       \<lparr>source_files = Map.empty, dirs = {}, json_files = [[''.ouverture'', ''objects'', ''c0'', ''ffee.json''] \<mapsto> 
       (JObj [(''version'', JInt 0), (''hash'', JStr ''c0ffee''),
                 (''normalized_code'', JStr ''def _ouverture_v_0(): pass''),
                 (''docstrings'', JObj [(''eng'', JStr ''Does nothing'')]),
                 (''name_mappings'', JObj [(''eng'', JObj [(''_ouverture_v_0'', JStr ''nop'')])]),
                 (''alias_mappings'', JObj [(''eng'', JObj [])])])], accesses = []\<rparr>)) (json_path ''c0ffee'') = Some stored' \<and>
      lookup_entry stored' ''docstrings'' ''fra'' = Some (JStr ''Ne fait rien'')"
    by (simp add: save_function_def Let_def add_language_data_def str_dict_def
          json_path_def hash_dir_def objects_dir_def lookup_entry_def lookup_field_def)
  from save_function_frame[OF h1 h3, where other_code = "''something else''"] obtain stored' where
    s1: "json_files (snd (save_function ''c0ffee'' ''fra'' ''something else'' ''Ne fait rien'' [(''_ouverture_v_0'', ''rien'')] [] 
       \<lparr>source_files = Map.empty, dirs = {}, json_files = [[''.ouverture'', ''objects'', ''c0'', ''ffee.json''] \<mapsto> 
       (JObj [(''version'', JInt 0), (''hash'', JStr ''c0ffee''),
                 (''normalized_code'', JStr ''def _ouverture_v_0(): pass''),
                 (''docstrings'', JObj [(''eng'', JStr ''Does nothing'')]),
                 (''name_mappings'', JObj [(''eng'', JObj [(''_ouverture_v_0'', JStr ''nop'')])]),
                 (''alias_mappings'', JObj [(''eng'', JObj [])])])], accesses = []\<rparr>)) (json_path ''c0ffee'') = Some stored'" and
    s2: "lookup_field stored' ''normalized_code'' = lookup_field 
       (JObj [(''version'', JInt 0), (''hash'', JStr ''c0ffee''),
                 (''normalized_code'', JStr ''def _ouverture_v_0(): pass''),
                 (''docstrings'', JObj [(''eng'', JStr ''Does nothing'')]),
                 (''name_mappings'', JObj [(''eng'', JObj [(''_ouverture_v_0'', JStr ''nop'')])]),
                 (''alias_mappings'', JObj [(''eng'', JObj [])])]) ''normalized_code''" and
    s3: "\<forall>field other. other \<noteq> ''fra'' \<longrightarrow> lookup_entry stored' field other = lookup_entry 
       (JObj [(''version'', JInt 0), (''hash'', JStr ''c0ffee''),
                 (''normalized_code'', JStr ''def _ouverture_v_0(): pass''),
                 (''docstrings'', JObj [(''eng'', JStr ''Does nothing'')]),
                 (''name_mappings'', JObj [(''eng'', JObj [(''_ouverture_v_0'', JStr ''nop'')])]),
                 (''alias_mappings'', JObj [(''eng'', JObj [])])]) field other"
    by (elim exE conjE)
  from s3 have "''eng'' \<noteq> ''fra'' \<longrightarrow>
      lookup_entry stored' ''docstrings'' ''eng'' = lookup_entry 
       (JObj [(''version'', JInt 0), (''hash'', JStr ''c0ffee''),
                 (''normalized_code'', JStr ''def _ouverture_v_0(): pass''),
                 (''docstrings'', JObj [(''eng'', JStr ''Does nothing'')]),
                 (''name_mappings'', JObj [(''eng'', JObj [(''_ouverture_v_0'', JStr ''nop'')])]),
                 (''alias_mappings'', JObj [(''eng'', JObj [])])]) ''docstrings'' ''eng''"
    by (elim allE)
  then have s4: "lookup_entry stored' ''docstrings'' ''eng'' = Some (JStr ''Does nothing'')"
    by (simp add: lookup_entry_def lookup_field_def)
  have s5: "lookup_field stored' ''normalized_code'' = Some (JStr ''def _ouverture_v_0(): pass'')"
    using s2 by (simp add: lookup_field_def)
  from h4 s1 have s6: "lookup_entry stored' ''docstrings'' ''fra'' = Some (JStr ''Ne fait rien'')"
    by simp
  show ?thesis
    by (intro conjI exI[of _ stored']) (rule h1 h2 s1 s5 s4 s6)+
qed

section \<open>Properties of ast_to_aston\<close>

lemma items_loop_eq:
  "items_loop (map (map_aston_item f) items) (ts, ls) =
     (ts @ concat (map (\<lambda>c. snd (f c)) (concat (map item_nodes items))),
      ls @ map (item_value (\<lambda>c. fst (f c))) items)"
proof (induction items arbitrary: ts ls)
  case Nil
  show ?case by simp
next
  case (Cons it items)
  show ?case
  proof (cases it)
    case (ItemNode c)
    then show ?thesis using Cons.IH by (cases "f c") simp
  next
    case (ItemAtom a)
    then show ?thesis using Cons.IH by simp
  qed
qed

lemma encoded_data_keys: "fst ` set (encoded_data h kv) \<subseteq> {fst kv}"
  by (cases "(h, kv)" rule: encoded_data.cases) auto

lemma fields_loop_tuples:
  "fst (fields_loop (map (map_prod id (map_aston_field f)) fs) (ts, obj, fd)) =
     ts @ concat (map (\<lambda>c. snd (f c)) (concat (map (\<lambda>(k, v). field_nodes v) fs)))"
proof (induction fs arbitrary: ts obj fd)
  case Nil
  show ?case by simp
next
  case (Cons kv fs)
  obtain k v where kv: "kv = (k, v)" by (cases kv)
  show ?case
  proof (cases v)
    case (FieldAtom a)
    then show ?thesis using kv Cons.IH by simp
  next
    case (FieldList items)
    then show ?thesis using kv Cons.IH by (simp add: items_loop_eq)
  next
    case (FieldNode c)
    then show ?thesis using kv Cons.IH by (cases "f c") simp
  next
    case (FieldOther r)
    then show ?thesis using kv Cons.IH by simp
  qed
qed

lemma fields_loop_data:
  assumes "distinct (map fst fs)" "set (map fst fs) \<inter> fst ` set fd = {}"
  shows "snd (snd (fields_loop (map (map_prod id (map_aston_field f)) fs) (ts, obj, fd))) =
           fd @ concat (map (encoded_data (\<lambda>c. fst (f c))) fs)"
  using assms
proof (induction fs arbitrary: ts obj fd)
  case Nil
  show ?case by simp
next
  case (Cons kv fs)
  obtain k v where kv: "kv = (k, v)" by (cases kv)
  have d: "distinct (map fst fs)" and kn: "k \<notin> fst ` set fs" and kf: "k \<notin> fst ` set fd"
    using Cons.prems kv by auto
  have fresh: "set (map fst fs) \<inter> fst ` set (fd @ [(k, x)]) = {}" for x
    using Cons.prems kv by auto
  have keep: "set (map fst fs) \<inter> fst ` set fd = {}" using Cons.prems by auto
  show ?case
  proof (cases v)
    case (FieldAtom a)
    then show ?thesis using kv Cons.IH[OF d fresh] by (simp add: update_fresh[OF kf])
  next
    case (FieldList items)
    then show ?thesis using kv Cons.IH[OF d fresh] by (simp add: items_loop_eq update_fresh[OF kf])
  next
    case (FieldNode c)
    then show ?thesis using kv Cons.IH[OF d fresh] by (cases "f c") (simp add: update_fresh[OF kf])
  next
    case (FieldOther r)
    then show ?thesis using kv Cons.IH[OF d keep] by simp
  qed
qed

lemma node_tuples_of_encoded:
  "concat (map (node_tuples_of h) (encoded_data hash_of kv)) = field_quads hash_of h kv"
proof (cases "(hash_of, kv)" rule: encoded_data.cases)
  case (3 ho k items)
  have "map (\<lambda>(i, v). (h, k, Some i, v)) (enumerate n (map (item_value hash_of) items)) =
        map (\<lambda>(i, it). (h, k, Some i, item_value hash_of it)) (enumerate n items)" for n
    by (induction items arbitrary: n) auto
  then show ?thesis using 3 by simp
qed auto

lemma node_tuples_of_fields:
  "concat (map (node_tuples_of h) (concat (map (encoded_data hash_of) fs))) =
     concat (map (field_quads hash_of h) fs)"
  by (induction fs) (simp_all add: node_tuples_of_encoded)

lemma ast_to_aston_one_level:
  assumes "distinct (map fst (ast_fields n))"
  shows "snd (ast_to_aston dumps sha256 n) =
           concat (map (\<lambda>c. snd (ast_to_aston dumps sha256 c)) (children n)) @ own_quads dumps sha256 n"
proof -
  obtain class_name fs where n: "n = AST class_name fs" by (cases n)
  let ?f = "ast_to_aston dumps sha256"
  let ?r = "fields_loop (map (map_prod id (map_aston_field ?f)) fs) ([], [(''_type'', JStr class_name)], [])"
  obtain ts obj fd where r: "?r = (ts, obj, fd)" by (cases ?r)
  have d: "distinct (map fst fs)" using assms n by simp
  have ts: "ts = concat (map (\<lambda>c. snd (?f c)) (children n))"
    using fields_loop_tuples[of ?f fs "[]" "[(''_type'', JStr class_name)]" "[]"] r n
    by (simp add: children_def)
  have fd: "fd = concat (map (encoded_data (\<lambda>c. fst (?f c))) fs)"
    using fields_loop_data[OF d, of "[]" ?f "[]" "[(''_type'', JStr class_name)]"] r by simp
  have h: "fst (?f n) = sha256 (dumps (JObj (sort_key fst obj)))"
    using r n by (simp add: Let_def)
  have "snd (?f n) = ts @ (fst (?f n), ''_type'', None, AStr class_name) #
          concat (map (node_tuples_of (fst (?f n))) fd)"
    using r n by (simp add: Let_def)
  then show ?thesis
    unfolding ts fd node_tuples_of_fields own_quads_def using n by simp
qed

lemma children_size: "c \<in> set (children n) \<Longrightarrow> size c < size n"
proof -
  assume c: "c \<in> set (children n)"
  obtain class_name fs where n: "n = AST class_name fs" by (cases n)
  from c n obtain k v where kv: "(k, v) \<in> set fs" "c \<in> set (field_nodes v)"
    by (auto simp: children_def)
  from kv(2) have "c \<in> set_aston_field v" by (rule field_nodes_subset)
  then have 1: "size c < Suc (size_aston_field size v)" by (rule size_aston_field_mem)
  from kv(1) have "size_prod (\<lambda>x. 0) (size_aston_field size) (k, v)
                     \<le> size_list (size_prod (\<lambda>x. 0) (size_aston_field size)) fs"
    by (rule size_list_estimation') simp
  with 1 show ?thesis using n by simp
qed

lemma concat_map_concat: "concat (map g (concat xss)) = concat (map (\<lambda>xs. concat (map g xs)) xss)"
  by (induction xss) auto

lemma post_order_children:
  "post_order n = concat (map post_order (children n)) @ [n]"
proof -
  obtain class_name fs where n: "n = AST class_name fs" by (cases n)
  have "concat (map (\<lambda>(k, v). concat (map post_order (field_nodes v))) fs) =
        concat (map post_order (concat (map (\<lambda>(k, v). field_nodes v) fs)))"
    by (induction fs) auto
  then show ?thesis using n by (simp add: children_def)
qed

lemma distinct_fields_children:
  "distinct_fields n \<longleftrightarrow> distinct (map fst (ast_fields n)) \<and> (\<forall>c \<in> set (children n). distinct_fields c)"
  unfolding distinct_fields_def
  by (subst post_order_children) (auto simp: list_all_iff)

lemma ast_to_aston_flat:
  "distinct_fields n \<Longrightarrow>
     snd (ast_to_aston dumps sha256 n) = concat (map (own_quads dumps sha256) (post_order n))"
proof (induction n rule: measure_induct_rule[of size])
  case (less n)
  have d: "distinct (map fst (ast_fields n))" and dc: "\<forall>c \<in> set (children n). distinct_fields c"
    using less.prems distinct_fields_children[of n] by simp_all
  have ih: "snd (ast_to_aston dumps sha256 c) = concat (map (own_quads dumps sha256) (post_order c))"
    if "c \<in> set (children n)" for c
    using less.IH[OF children_size[OF that]] dc that by simp
  have "concat (map (own_quads dumps sha256) (post_order n)) =
        concat (map (\<lambda>c. concat (map (own_quads dumps sha256) (post_order c))) (children n)) @
          own_quads dumps sha256 n"
    by (subst post_order_children) (simp add: concat_map_concat o_def)
  also have "concat (map (\<lambda>c. concat (map (own_quads dumps sha256) (post_order c))) (children n)) =
        concat (map (\<lambda>c. snd (ast_to_aston dumps sha256 c)) (children n))"
    using ih by (simp cong: map_cong)
  finally show ?case using ast_to_aston_one_level[OF d, of dumps sha256] by simp
qed


lemma own_quads_hash: "q \<in> set (own_quads dumps sha256 n) \<Longrightarrow> quad_hash q = fst (ast_to_aston dumps sha256 n)"
proof -
  have "q \<in> set (field_quads hash_of h kv) \<Longrightarrow> fst q = h" for hash_of :: "ast \<Rightarrow> string" and h kv
    by (cases "(hash_of, h, kv)" rule: field_quads.cases) (auto simp: in_set_enumerate_eq)
  then show "q \<in> set (own_quads dumps sha256 n) \<Longrightarrow> quad_hash q = fst (ast_to_aston dumps sha256 n)"
    unfolding own_quads_def quad_hash_def by auto
qed

lemma field_quads_index:
  "q \<in> set (field_quads hash_of h (k, v)) \<Longrightarrow>
     quad_key q = k \<and> (quad_index q \<noteq> None \<longleftrightarrow> (\<exists>items. v = FieldList items))"
  by (cases "(hash_of, h, (k, v))" rule: field_quads.cases)
     (auto simp: in_set_enumerate_eq quad_key_def quad_index_def)

text \<open>
  Claim C5.  For a tree whose nodes have pairwise distinct field names (as the node classes
  of Python's \<open>ast\<close> have), the tuples \<open>ast_to_aston\<close> returns for a node are the tuples it
  returns for the children, child after child in field order, followed by the node's own
  tuples; over the whole tree they are the own tuples of the nodes in post-order, those
  of the root last.  The own tuples all carry the node's \<open>content_hash\<close>; after the
  \<open>_type\<close> tuple they are, field by field, the tuples of \<^const>\<open>field_quads\<close>: a
  node-valued field gives one tuple whose value is the \<open>content_hash\<close> that \<open>ast_to_aston\<close>
  returns for that child, a node item of a list gives that child's \<open>content_hash\<close> at its
  position, and a tuple has an index exactly when its field is list-valued.
\<close>

theorem ast_to_aston_post_order:
  assumes "distinct_fields n"
  shows "snd (ast_to_aston dumps sha256 n) =
           concat (map (\<lambda>c. snd (ast_to_aston dumps sha256 c)) (children n)) @ own_quads dumps sha256 n \<and>
         snd (ast_to_aston dumps sha256 n) = concat (map (own_quads dumps sha256) (post_order n)) \<and>
         last (post_order n) = n \<and>
         (\<forall>q \<in> set (own_quads dumps sha256 n). quad_hash q = fst (ast_to_aston dumps sha256 n)) \<and>
         (\<forall>k c. (k, FieldNode c) \<in> set (ast_fields n) \<longrightarrow>
            field_quads (\<lambda>c. fst (ast_to_aston dumps sha256 c)) (fst (ast_to_aston dumps sha256 n)) (k, FieldNode c) =
              [(fst (ast_to_aston dumps sha256 n), k, None, AStr (fst (ast_to_aston dumps sha256 c)))]) \<and>
         (\<forall>k items i c. (k, FieldList items) \<in> set (ast_fields n) \<and> i < length items \<and> items ! i = ItemNode c \<longrightarrow>
            field_quads (\<lambda>c. fst (ast_to_aston dumps sha256 c)) (fst (ast_to_aston dumps sha256 n)) (k, FieldList items) ! i =
              (fst (ast_to_aston dumps sha256 n), k, Some i, AStr (fst (ast_to_aston dumps sha256 c)))) \<and>
         (\<forall>k v. (k, v) \<in> set (ast_fields n) \<longrightarrow>
            (\<forall>q \<in> set (field_quads (\<lambda>c. fst (ast_to_aston dumps sha256 c)) (fst (ast_to_aston dumps sha256 n)) (k, v)).
               quad_key q = k \<and> (quad_index q \<noteq> None \<longleftrightarrow> (\<exists>items. v = FieldList items))))"
proof -
  have d: "distinct (map fst (ast_fields n))"
    using assms distinct_fields_children[of n] by simp
  have 1: "snd (ast_to_aston dumps sha256 n) =
           concat (map (\<lambda>c. snd (ast_to_aston dumps sha256 c)) (children n)) @ own_quads dumps sha256 n"
    using d by (rule ast_to_aston_one_level)
  have 2: "snd (ast_to_aston dumps sha256 n) = concat (map (own_quads dumps sha256) (post_order n))"
    using assms by (rule ast_to_aston_flat)
  have 3: "last (post_order n) = n"
    by (subst post_order_children) simp
  have 4: "\<forall>q \<in> set (own_quads dumps sha256 n). quad_hash q = fst (ast_to_aston dumps sha256 n)"
    by (simp add: own_quads_hash)
  have 5: "\<forall>k c. (k, FieldNode c) \<in> set (ast_fields n) \<longrightarrow>
            field_quads (\<lambda>c. fst (ast_to_aston dumps sha256 c)) (fst (ast_to_aston dumps sha256 n)) (k, FieldNode c) =
              [(fst (ast_to_aston dumps sha256 n), k, None, AStr (fst (ast_to_aston dumps sha256 c)))]"
    by simp
  have 6: "\<forall>k items i c. (k, FieldList items) \<in> set (ast_fields n) \<and> i < length items \<and> items ! i = ItemNode c \<longrightarrow>
            field_quads (\<lambda>c. fst (ast_to_aston dumps sha256 c)) (fst (ast_to_aston dumps sha256 n)) (k, FieldList items) ! i =
              (fst (ast_to_aston dumps sha256 n), k, Some i, AStr (fst (ast_to_aston dumps sha256 c)))"
    by (simp add: nth_enumerate_eq)
  have 7: "\<forall>k v. (k, v) \<in> set (ast_fields n) \<longrightarrow>
            (\<forall>q \<in> set (field_quads (\<lambda>c. fst (ast_to_aston dumps sha256 c)) (fst (ast_to_aston dumps sha256 n)) (k, v)).
               quad_key q = k \<and> (quad_index q \<noteq> None \<longleftrightarrow> (\<exists>items. v = FieldList items)))"
    using field_quads_index by blast
  show ?thesis using 1 2 3 4 5 6 7 by (intro conjI)
qed

theorem ast_to_aston_post_order_witness:
  "distinct_fields 
     (AST ''Module'' [(''body'', FieldList [ItemNode (AST ''Pass'' []), ItemNode (AST ''Break'' [])]), (''type_ignores'', FieldList [])]) \<and>
   snd (ast_to_aston json_text plain_digest 
     (AST ''Module'' [(''body'', FieldList [ItemNode (AST ''Pass'' []), ItemNode (AST ''Break'' [])]), (''type_ignores'', FieldList [])])) =
     concat (map (own_quads json_text plain_digest) (post_order 
     (AST ''Module'' [(''body'', FieldList [ItemNode (AST ''Pass'' []), ItemNode (AST ''Break'' [])]), (''type_ignores'', FieldList [])]))) \<and>
   map (\<lambda>q. (quad_key q, quad_index q, quad_value q)) (snd (ast_to_aston json_text plain_digest 
     (AST ''Module'' [(''body'', FieldList [ItemNode (AST ''Pass'' []), ItemNode (AST ''Break'' [])]), (''type_ignores'', FieldList [])]))) =
     [(''_type'', None, AStr ''Pass''), (''_type'', None, AStr ''Break''), (''_type'', None, AStr ''Module''),
      (''body'', Some 0, AStr ''{<_type>: <Pass>}''), (''body'', Some 1, AStr ''{<_type>: <Break>}'')]"
proof -
  have h: "distinct_fields 
     (AST ''Module'' [(''body'', FieldList [ItemNode (AST ''Pass'' []), ItemNode (AST ''Break'' [])]), (''type_ignores'', FieldList [])])"
    by (simp add: distinct_fields_def)
  have e: "map (\<lambda>q. (quad_key q, quad_index q, quad_value q)) (snd (ast_to_aston json_text plain_digest 
     (AST ''Module'' [(''body'', FieldList [ItemNode (AST ''Pass'' []), ItemNode (AST ''Break'' [])]), (''type_ignores'', FieldList [])]))) =
     [(''_type'', None, AStr ''Pass''), (''_type'', None, AStr ''Break''), (''_type'', None, AStr ''Module''),
      (''body'', Some 0, AStr ''{<_type>: <Pass>}''), (''body'', Some 1, AStr ''{<_type>: <Break>}'')]"
    by code_simp
  from ast_to_aston_post_order[OF h, of json_text plain_digest]
  have "snd (ast_to_aston json_text plain_digest 
     (AST ''Module'' [(''body'', FieldList [ItemNode (AST ''Pass'' []), ItemNode (AST ''Break'' [])]), (''type_ignores'', FieldList [])])) =
     concat (map (own_quads json_text plain_digest) (post_order 
     (AST ''Module'' [(''body'', FieldList [ItemNode (AST ''Pass'' []), ItemNode (AST ''Break'' [])]), (''type_ignores'', FieldList [])])))"
    by (elim conjE)
  with h e show ?thesis by (intro conjI)
qed

lemma fields_loop_obj:
  assumes "distinct (map fst fs)"
  shows "map_of (fst (snd (fields_loop (map (map_prod id (map_aston_field f)) fs) (ts, obj, fd)))) k =
           (case map_of fs k of
              None \<Rightarrow> map_of obj k
            | Some v \<Rightarrow> (case field_json (\<lambda>c. fst (f c)) v of Some j \<Rightarrow> Some j | None \<Rightarrow> map_of obj k))"
  using assms
proof (induction fs arbitrary: ts obj fd)
  case Nil
  show ?case by simp
next
  case (Cons kv fs)
  obtain k' v where kv: "kv = (k', v)" by (cases kv)
  have d: "distinct (map fst fs)" and kn: "map_of fs k' = None"
    using Cons.prems kv by (auto simp: map_of_eq_None_iff)
  show ?case
  proof (cases v)
    case (FieldAtom a)
    then show ?thesis using kv kn Cons.IH[OF d]
      by (auto simp: update_conv' split: option.splits)
  next
    case (FieldList items)
    then show ?thesis using kv kn Cons.IH[OF d]
      by (auto simp: items_loop_eq update_conv' split: option.splits)
  next
    case (FieldNode c)
    then show ?thesis using kv kn Cons.IH[OF d]
      by (cases "f c") (auto simp: update_conv' split: option.splits)
  next
    case (FieldOther r)
    then show ?thesis using kv kn Cons.IH[OF d]
      by (auto split: option.splits)
  qed
qed

lemma fields_loop_obj_distinct:
  "distinct (map fst obj) \<Longrightarrow>
     distinct (map fst (fst (snd (fields_loop fs (ts, obj, fd)))))"
proof (induction fs "(ts, obj, fd)" arbitrary: ts obj fd rule: fields_loop.induct)
  case (3 field items rest all_tuples obj fdata)
  obtain a b where ab: "items_loop items (all_tuples, []) = (a, b)" by (cases "items_loop items (all_tuples, [])")
  show ?case using 3 ab by (simp add: distinct_update)
qed (simp_all add: distinct_update)

lemma sort_key_unique:
  assumes "distinct (map fst xs)" "distinct (map fst ys)" "map_of xs = map_of ys"
  shows "sort_key fst xs = sort_key fst (ys :: (string \<times> 'a) list)"
proof -
  have s: "set xs = set ys" using assms by (simp add: map_of_inject_set)
  have dx: "distinct (map fst (sort_key fst xs))"
    using assms(1) by (metis distinct_map distinct_sort set_sort)
  have dy: "distinct (map fst (sort_key fst ys))"
    using assms(2) by (metis distinct_map distinct_sort set_sort)
  have inj: "inj_on fst (set (sort_key fst xs) \<union> set (sort_key fst ys))"
    using assms(1) s by (simp add: distinct_map)
  show ?thesis
    by (rule map_sorted_distinct_set_unique[OF inj]) (simp_all add: dx dy s)
qed

lemma item_value_rel:
  assumes "list_all2 (rel_aston_item R) xs ys"
    and "\<And>x y. x \<in> set (concat (map item_nodes xs)) \<Longrightarrow> y \<in> set (concat (map item_nodes ys)) \<Longrightarrow>
           R x y \<Longrightarrow> h x = h y"
  shows "map (item_value h) xs = map (item_value h) ys"
  using assms
proof (induction xs ys rule: list_all2_induct)
  case Nil
  show ?case by simp
next
  case (Cons x xs y ys)
  have "item_value h x = item_value h y"
    using Cons.hyps(1) Cons.prems by (cases x; cases y) auto
  moreover have "map (item_value h) xs = map (item_value h) ys"
    using Cons.IH Cons.prems by auto
  ultimately show ?case by simp
qed

lemma field_json_rel:
  assumes "rel_aston_field R v1 v2"
    and "\<And>x y. x \<in> set (field_nodes v1) \<Longrightarrow> y \<in> set (field_nodes v2) \<Longrightarrow> R x y \<Longrightarrow> h x = h y"
  shows "field_json h v1 = field_json h v2"
proof (cases v1)
  case (FieldList xs)
  with assms(1) obtain ys where ys: "v2 = FieldList ys" "list_all2 (rel_aston_item R) xs ys"
    by (cases v2) auto
  have "map (item_value h) xs = map (item_value h) ys"
  proof (rule item_value_rel[where R = R, OF ys(2)])
    fix x y
    assume "x \<in> set (concat (map item_nodes xs))" "y \<in> set (concat (map item_nodes ys))" "R x y"
    then show "h x = h y" using assms(2)[of x y] FieldList ys(1) by simp
  qed
  then have "map atom_json (map (item_value h) xs) = map atom_json (map (item_value h) ys)"
    by simp
  then have "map (\<lambda>it. atom_json (item_value h it)) xs = map (\<lambda>it. atom_json (item_value h it)) ys"
    by (simp add: o_def)
  then show ?thesis using FieldList ys by simp
next
  case (FieldNode x)
  then show ?thesis using assms by (cases v2) auto
qed (use assms in \<open>cases v2; auto\<close>)+

lemma ast_hash_eq:
  "fst (ast_to_aston dumps sha256 (AST c fs)) =
     sha256 (dumps (JObj (sort_key fst
        (fst (snd (fields_loop (map (map_prod id (map_aston_field (ast_to_aston dumps sha256))) fs)
                     ([], [(''_type'', JStr c)], [])))))))"
  by (simp add: Let_def split: prod.splits)

lemma set_aston_field_nodes: "set_aston_field v = set (field_nodes v)"
proof (cases v)
  case (FieldList items)
  have "set_aston_item it = set (item_nodes it)" for it :: "'a aston_item" by (cases it) auto
  then show ?thesis using FieldList by auto
qed auto

lemma same_structure_refl_step:
  "distinct (map fst (ast_fields a)) \<Longrightarrow>
   (\<And>c. c \<in> set (children a) \<Longrightarrow> same_structure c c) \<Longrightarrow> same_structure a a"
proof -
  assume d: "distinct (map fst (ast_fields a))" and ch: "\<And>c. c \<in> set (children a) \<Longrightarrow> same_structure c c"
  obtain c fs where a: "a = AST c fs" by (cases a)
  have "rel_aston_field same_structure v v \<and> map_of fs k = Some v" if "(k, v) \<in> set fs" for k v
  proof
    have "\<And>z. z \<in> set_aston_field v \<Longrightarrow> same_structure z z"
      using ch that a by (auto simp: children_def set_aston_field_nodes)
    then show "rel_aston_field same_structure v v"
      by (intro aston_field.rel_refl_strong)
    show "map_of fs k = Some v" using d a that by simp
  qed
  then show ?thesis using a by (auto simp: list_all_iff)
qed


lemma same_structure_refl: "distinct_fields a \<Longrightarrow> same_structure a a"
proof (induction a rule: measure_induct_rule[of size])
  case (less a)
  have d: "distinct (map fst (ast_fields a))" and dc: "\<And>c. c \<in> set (children a) \<Longrightarrow> distinct_fields c"
    using less.prems distinct_fields_children[of a] by simp_all
  show ?case
    using d less.IH[OF children_size dc] by (rule same_structure_refl_step)
qed

text \<open>
  Claim C4.  Two trees that are structurally identical (\<^const>\<open>same_structure\<close>), with
  distinct field names in every node, receive the same \<open>content_hash\<close> from \<open>ast_to_aston\<close>,
  whatever the order in which their fields are enumerated.  The trees are values: nothing
  but their structure is there to depend on.
\<close>

theorem ast_to_aston_structural_hash:
  "same_structure a b \<Longrightarrow> distinct_fields a \<Longrightarrow> distinct_fields b \<Longrightarrow>
     fst (ast_to_aston dumps sha256 a) = fst (ast_to_aston dumps sha256 b)"
proof (induction a arbitrary: b rule: measure_induct_rule[of size])
  case (less a)
  obtain c1 fs1 where a: "a = AST c1 fs1" by (cases a)
  obtain c2 fs2 where b0: "b = AST c2 fs2" by (cases b)
  have c: "c1 = c2" using less.prems(1) a b0 by simp
  have b: "b = AST c1 fs2" using b0 c by simp
  let ?f = "ast_to_aston dumps sha256"
  let ?h = "\<lambda>c. fst (?f c)"
  have keys: "set (map fst fs1) = set (map fst fs2)"
    and rel: "\<And>k v1. (k, v1) \<in> set fs1 \<Longrightarrow> \<exists>v2. map_of fs2 k = Some v2 \<and> rel_aston_field same_structure v1 v2"
    using less.prems(1) a b by (auto simp: list_all_iff split: option.splits)
  have d1: "distinct (map fst fs1)" and dc1: "\<And>x. x \<in> set (children a) \<Longrightarrow> distinct_fields x"
    using less.prems(2) distinct_fields_children[of a] a by simp_all
  have d2: "distinct (map fst fs2)" and dc2: "\<And>y. y \<in> set (children b) \<Longrightarrow> distinct_fields y"
    using less.prems(3) distinct_fields_children[of b] b by simp_all
  let ?o1 = "fst (snd (fields_loop (map (map_prod id (map_aston_field ?f)) fs1) ([], [(''_type'', JStr c1)], [])))"
  let ?o2 = "fst (snd (fields_loop (map (map_prod id (map_aston_field ?f)) fs2) ([], [(''_type'', JStr c1)], [])))"
  have "map_of ?o1 k = map_of ?o2 k" for k
  proof (cases "map_of fs1 k")
    case None
    then have "k \<notin> fst ` set fs1" by (simp add: map_of_eq_None_iff)
    then have "k \<notin> fst ` set fs2" using keys by simp
    then have "map_of fs2 k = None" by (simp add: map_of_eq_None_iff)
    with None show ?thesis
      unfolding fields_loop_obj[OF d1] fields_loop_obj[OF d2] by simp
  next
    case (Some v1)
    then have m1: "(k, v1) \<in> set fs1" by (rule map_of_SomeD)
    from rel[OF m1] obtain v2 where v2: "map_of fs2 k = Some v2" "rel_aston_field same_structure v1 v2"
      by blast
    then have m2: "(k, v2) \<in> set fs2" by (auto dest: map_of_SomeD)
    have "?h x = ?h y" if "x \<in> set (field_nodes v1)" "y \<in> set (field_nodes v2)" "same_structure x y" for x y
    proof -
      have xc: "x \<in> set (children a)" using that(1) m1 a by (auto simp: children_def)
      have yc: "y \<in> set (children b)" using that(2) m2 b by (auto simp: children_def)
      show ?thesis using less.IH[OF children_size[OF xc] that(3) dc1[OF xc] dc2[OF yc]] .
    qed
    then have "field_json ?h v1 = field_json ?h v2"
      using v2(2) by (intro field_json_rel[where R = same_structure]) auto
    then show ?thesis
      unfolding fields_loop_obj[OF d1] fields_loop_obj[OF d2] using Some v2(1) by simp
  qed
  then have "map_of ?o1 = map_of ?o2" by (rule ext)
  moreover have "distinct (map fst ?o1)" "distinct (map fst ?o2)"
    by (simp_all add: fields_loop_obj_distinct)
  ultimately have "sort_key fst ?o1 = sort_key fst ?o2" by (intro sort_key_unique)
  then show ?case unfolding a b ast_hash_eq by simp
qed

theorem ast_to_aston_structural_hash_witness:
  "same_structure 
     (AST ''Assign'' [(''targets'', FieldList [ItemNode (AST ''Name'' [(''id'', FieldAtom (AStr ''x''))])]), (''value'', FieldNode (AST ''Constant'' [(''value'', FieldAtom (AInt 1))]))]) 
     (AST ''Assign'' [(''value'', FieldNode (AST ''Constant'' [(''value'', FieldAtom (AInt 1))])), (''targets'', FieldList [ItemNode (AST ''Name'' [(''id'', FieldAtom (AStr ''x''))])])]) \<and>
   distinct_fields 
     (AST ''Assign'' [(''targets'', FieldList [ItemNode (AST ''Name'' [(''id'', FieldAtom (AStr ''x''))])]), (''value'', FieldNode (AST ''Constant'' [(''value'', FieldAtom (AInt 1))]))]) \<and>
   distinct_fields 
     (AST ''Assign'' [(''value'', FieldNode (AST ''Constant'' [(''value'', FieldAtom (AInt 1))])), (''targets'', FieldList [ItemNode (AST ''Name'' [(''id'', FieldAtom (AStr ''x''))])])]) \<and>
   fst (ast_to_aston json_text plain_digest 
     (AST ''Assign'' [(''targets'', FieldList [ItemNode (AST ''Name'' [(''id'', FieldAtom (AStr ''x''))])]), (''value'', FieldNode (AST ''Constant'' [(''value'', FieldAtom (AInt 1))]))])) =
   fst (ast_to_aston json_text plain_digest 
     (AST ''Assign'' [(''value'', FieldNode (AST ''Constant'' [(''value'', FieldAtom (AInt 1))])), (''targets'', FieldList [ItemNode (AST ''Name'' [(''id'', FieldAtom (AStr ''x''))])])]))"
proof -
  have h1: "same_structure 
     (AST ''Assign'' [(''targets'', FieldList [ItemNode (AST ''Name'' [(''id'', FieldAtom (AStr ''x''))])]), (''value'', FieldNode (AST ''Constant'' [(''value'', FieldAtom (AInt 1))]))]) 
     (AST ''Assign'' [(''value'', FieldNode (AST ''Constant'' [(''value'', FieldAtom (AInt 1))])), (''targets'', FieldList [ItemNode (AST ''Name'' [(''id'', FieldAtom (AStr ''x''))])])])"
    by (simp add: insert_commute)
  have h2: "distinct_fields 
     (AST ''Assign'' [(''targets'', FieldList [ItemNode (AST ''Name'' [(''id'', FieldAtom (AStr ''x''))])]), (''value'', FieldNode (AST ''Constant'' [(''value'', FieldAtom (AInt 1))]))])"
    by (simp add: distinct_fields_def)
  have h3: "distinct_fields 
     (AST ''Assign'' [(''value'', FieldNode (AST ''Constant'' [(''value'', FieldAtom (AInt 1))])), (''targets'', FieldList [ItemNode (AST ''Name'' [(''id'', FieldAtom (AStr ''x''))])])])"
    by (simp add: distinct_fields_def)
  from ast_to_aston_structural_hash[OF h1 h2 h3, of json_text plain_digest] h1 h2 h3
  show ?thesis by (intro conjI)
qed

section \<open>Properties of normalize_ast: docstrings\<close>

lemma FunctionDef_not_import: "is_FunctionDef n \<Longrightarrow> \<not> is_import n"
  by (cases n) auto

lemma sort_imports_around:
  assumes "is_FunctionDef fd"
  shows "sort_imports (Module (pre @ fd # post) ti) =
           Module (sort_key import_key (filter is_import (pre @ post)) @
                   filter (Not \<circ> is_import) pre @ fd # filter (Not \<circ> is_import) post) ti"
  using FunctionDef_not_import[OF assms] by (simp add: sort_imports_def o_def)

lemma filter_import_sorted:
  "filter is_import (sort_key import_key (filter is_import xs) @ filter (Not \<circ> is_import) ys) =
     sort_key import_key (filter is_import xs)"
proof -
  have "filter is_import (sort_key import_key (filter is_import xs)) = sort_key import_key (filter is_import xs)"
    by (simp add: filter_id_conv)
  moreover have "filter is_import (filter (Not \<circ> is_import) ys) = []"
    by (simp add: filter_empty_conv)
  ultimately show ?thesis by simp
qed

lemma extract_around:
  assumes "is_FunctionDef fd"
  shows "extract_function_def (sort_imports (Module (pre @ fd # post) ti)) =
           (if filter is_FunctionDef (pre @ post) = []
            then Inr (fd, sort_key import_key (filter is_import (pre @ post)))
            else Inl (ValueError ''Only one function definition is allowed per file''))"
proof -
  let ?I = "sort_key import_key (filter is_import (pre @ post))"
  let ?body = "?I @ filter (Not \<circ> is_import) pre @ fd # filter (Not \<circ> is_import) post"
  have nf: "filter is_FunctionDef ?I = []"
    by (auto simp: filter_empty_conv dest: import_not_FunctionDef)
  have nn: "filter (\<lambda>x. \<not> is_import x \<and> is_FunctionDef x) xs = filter is_FunctionDef xs" for xs
    by (rule filter_cong) (auto dest: import_not_FunctionDef)
  have f: "filter is_FunctionDef ?body = filter is_FunctionDef pre @ fd # filter is_FunctionDef post"
    using assms nf by (simp add: nn)
  have i0: "filter is_import (filter (Not \<circ> is_import) xs) = []" for xs
    by (simp add: filter_empty_conv)
  have i1: "filter is_import ?I = ?I" by (auto simp: filter_id_conv)
  have i: "filter is_import ?body = ?I"
    using FunctionDef_not_import[OF assms] i0 i1 by simp
  show ?thesis
    unfolding sort_imports_around[OF assms] extract_function_def_eq
    by (simp only: py_module.sel f i)
       (cases "filter is_FunctionDef pre"; cases "filter is_FunctionDef post"; simp split: list.splits)
qed

lemma normalized_modules_without:
  "snd (normalized_modules am fm imps fd fwd) =
     process_module am fm (Module (map (\<lambda>n. visit fm (replace_calls am n)) imps @ [fwd]) [])"
  by (simp add: normalized_modules_def Let_def process_module_def ASTNormalizer_visit_def
        replace_ouverture_calls_def butlast_append)

lemma create_name_mapping_same:
  assumes "same_logic fd1 fd2"
  shows "create_name_mapping b fd1 imps al = create_name_mapping b fd2 imps al"
  using assms by (simp add: same_logic_def create_name_mapping_def collected_names_def)

lemma without_docstring_code_eq:
  "without_docstring_code (normalize_ast unparse cleandoc b tree lang) =
     (case extract_function_def (sort_imports tree) of
        Inl e \<Rightarrow> Inl e
      | Inr (fd, imports0) \<Rightarrow>
          Inr (unparse (snd (normalized_modules
                 (snd (rewrite_ouverture_imports imports0))
                 (fst (create_name_mapping b fd (fst (rewrite_ouverture_imports imports0))
                         (set (map snd (snd (rewrite_ouverture_imports imports0))))))
                 (fst (rewrite_ouverture_imports imports0)) fd (without_docstring fd)))))"
  by (simp add: normalize_ast_def without_docstring_code_def extract_docstring_def
        split: sum.splits prod.splits)

lemma normalize_ast_same_logic:
  assumes "same_logic fd1 fd2"
  shows "without_docstring_code (normalize_ast unparse cleandoc1 b (Module (pre @ fd1 # post) ti1) lang1) =
         without_docstring_code (normalize_ast unparse cleandoc2 b (Module (pre @ fd2 # post) ti2) lang2)"
proof -
  have f1: "is_FunctionDef fd1" and f2: "is_FunctionDef fd2"
    and w: "without_docstring fd1 = without_docstring fd2"
    using assms by (simp_all add: same_logic_def)
  show ?thesis
    unfolding without_docstring_code_eq extract_around[OF f1] extract_around[OF f2]
    by (simp add: w create_name_mapping_same[OF assms] normalized_modules_without)
qed

lemma walk_docstring: "is_docstring_stmt d \<Longrightarrow> List.map_filter name_of_node (walk d) = []"
  by (cases d rule: is_docstring_stmt.cases) (simp_all add: List.map_filter_simps)

lemma map_filter_append: "List.map_filter f (xs @ ys) = List.map_filter f xs @ List.map_filter f ys"
  by (simp add: List.map_filter_def)

lemma names_walk_FunctionDef:
  "List.map_filter name_of_node (walk (FunctionDef name args stmts decorator_list returns type_comment type_params)) =
     List.map_filter name_of_node (walk args) @
     List.map_filter name_of_node (concat (map walk stmts)) @
     List.map_filter name_of_node
       (concat (map walk decorator_list) @ (case returns of None \<Rightarrow> [] | Some r \<Rightarrow> walk r) @
        concat (map walk type_params))"
  by (simp add: map_filter_append List.map_filter_simps)

lemma same_logic_docstring:
  assumes "is_docstring_stmt d1"
    and "(\<exists>d2. ds = [d2] \<and> is_docstring_stmt d2) \<or> (ds = [] \<and> (rest = [] \<or> \<not> is_docstring_stmt (hd rest)))"
  shows "same_logic (FunctionDef name args (d1 # rest) decorator_list returns type_comment type_params)
                    (FunctionDef name args (ds @ rest) decorator_list returns type_comment type_params)"
proof -
  have "List.map_filter name_of_node (concat (map walk ds)) = []"
    using assms(2) by (auto simp: walk_docstring List.map_filter_simps)
  then have n: "List.map_filter name_of_node (concat (map walk (d1 # rest))) =
        List.map_filter name_of_node (concat (map walk (ds @ rest)))"
    using walk_docstring[OF assms(1)] by (simp add: map_filter_append)
  have t: "(if ds @ rest \<noteq> [] \<and> is_docstring_stmt (hd (ds @ rest)) then tl (ds @ rest) else ds @ rest) = rest"
    using assms(2) by auto
  have w: "without_docstring (FunctionDef name args (d1 # rest) decorator_list returns type_comment type_params) =
           without_docstring (FunctionDef name args (ds @ rest) decorator_list returns type_comment type_params)"
    unfolding without_docstring.simps t using assms(1) by simp
  have m: "List.map_filter name_of_node (walk (FunctionDef name args (d1 # rest) decorator_list returns type_comment type_params)) =
           List.map_filter name_of_node (walk (FunctionDef name args (ds @ rest) decorator_list returns type_comment type_params))"
    unfolding names_walk_FunctionDef n ..
  show ?thesis
    unfolding same_logic_def using w m by simp
qed

text \<open>
  Claim C2.  Take a module with a function definition whose first statement is a docstring,
  and the module that differs from it only in that statement: the docstring is another
  string, or there is none (then the rest of the body does not begin with a bare string).
  \<open>normalize_ast\<close> returns the same rendering without docstring for both (or raises the same
  exception for both), whatever the language arguments, and so \<open>compute_hash\<close> gives both
  the same hash.
\<close>

theorem normalize_ast_docstring_invariant:
  assumes "is_docstring_stmt d1"
    and "(\<exists>d2. ds = [d2] \<and> is_docstring_stmt d2) \<or> (ds = [] \<and> (rest = [] \<or> \<not> is_docstring_stmt (hd rest)))"
  shows "without_docstring_code
           (normalize_ast unparse cleandoc builtin_names
              (Module (pre @ FunctionDef name args (d1 # rest) decorator_list returns type_comment type_params # post) ti)
              lang1) =
         without_docstring_code
           (normalize_ast unparse cleandoc builtin_names
              (Module (pre @ FunctionDef name args (ds @ rest) decorator_list returns type_comment type_params # post) ti)
              lang2) \<and>
         map_sum id (compute_hash sha256)
           (without_docstring_code
              (normalize_ast unparse cleandoc builtin_names
                 (Module (pre @ FunctionDef name args (d1 # rest) decorator_list returns type_comment type_params # post) ti)
                 lang1)) =
         map_sum id (compute_hash sha256)
           (without_docstring_code
              (normalize_ast unparse cleandoc builtin_names
                 (Module (pre @ FunctionDef name args (ds @ rest) decorator_list returns type_comment type_params # post) ti)
                 lang2))"
  using normalize_ast_same_logic[OF same_logic_docstring[OF assms], where unparse = unparse
          and ?cleandoc1.0 = cleandoc and ?cleandoc2.0 = cleandoc and b = builtin_names and pre = pre and post = post
          and ?ti1.0 = ti and ?ti2.0 = ti and ?lang1.0 = lang1 and ?lang2.0 = lang2]
  by simp

theorem normalize_ast_docstring_invariant_witness:
  "is_docstring_stmt (Expr (Constant (PStr ''Add two numbers'') None)) \<and>
   is_docstring_stmt (Expr (Constant (PStr ''Suma dos numeros'') None)) \<and>
   without_docstring_code
     (normalize_ast module_dump (\<lambda>s. s) {''print''}
        (Module ([] @ FunctionDef ''add'' (Other ''arguments'' [(''args'', FList [INode (Arg ''a'' None None), INode (Arg ''b'' None None)])])
                   (Expr (Constant (PStr ''Add two numbers'') None) # 
                   [Other ''Return'' [(''value'', FNode (Other ''BinOp'' [(''left'', FNode (Name ''a'' Load)), (''op'', FNode (Other ''Add'' [])), (''right'', FNode (Name ''b'' Load))]))]]) [] None None [] # []) [])
        ''eng'') =
   without_docstring_code
     (normalize_ast module_dump (\<lambda>s. s) {''print''}
        (Module ([] @ FunctionDef ''add'' (Other ''arguments'' [(''args'', FList [INode (Arg ''a'' None None), INode (Arg ''b'' None None)])])
                   ([Expr (Constant (PStr ''Suma dos numeros'') None)] @ 
                   [Other ''Return'' [(''value'', FNode (Other ''BinOp'' [(''left'', FNode (Name ''a'' Load)), (''op'', FNode (Other ''Add'' [])), (''right'', FNode (Name ''b'' Load))]))]]) [] None None [] # []) [])
        ''spa'') \<and>
   without_docstring_code
     (normalize_ast module_dump (\<lambda>s. s) {''print''}
        (Module ([] @ FunctionDef ''add'' (Other ''arguments'' [(''args'', FList [INode (Arg ''a'' None None), INode (Arg ''b'' None None)])])
                   (Expr (Constant (PStr ''Add two numbers'') None) # 
                   [Other ''Return'' [(''value'', FNode (Other ''BinOp'' [(''left'', FNode (Name ''a'' Load)), (''op'', FNode (Other ''Add'' [])), (''right'', FNode (Name ''b'' Load))]))]]) [] None None [] # []) [])
        ''eng'') =
   Inr ''Module([FunctionDef(_ouverture_v_0, arguments(args=[arg(_ouverture_v_1), arg(_ouverture_v_2)]), [Return(value=BinOp(left=Name(_ouverture_v_1), op=Add(), right=Name(_ouverture_v_2)))], [], None, [])])''"
proof -
  have h1: "is_docstring_stmt (Expr (Constant (PStr ''Add two numbers'') None))" by simp
  have h2: "(\<exists>d2. [Expr (Constant (PStr ''Suma dos numeros'') None)] = [d2] \<and> is_docstring_stmt d2) \<or>
            ([Expr (Constant (PStr ''Suma dos numeros'') None)] = [] \<and>
             (
                   [Other ''Return'' [(''value'', FNode (Other ''BinOp'' [(''left'', FNode (Name ''a'' Load)), (''op'', FNode (Other ''Add'' [])), (''right'', FNode (Name ''b'' Load))]))]] = [] \<or> \<not> is_docstring_stmt (hd 
                   [Other ''Return'' [(''value'', FNode (Other ''BinOp'' [(''left'', FNode (Name ''a'' Load)), (''op'', FNode (Other ''Add'' [])), (''right'', FNode (Name ''b'' Load))]))]])))"
    by simp
  have e: "without_docstring_code
     (normalize_ast module_dump (\<lambda>s. s) {''print''}
        (Module ([] @ FunctionDef ''add'' (Other ''arguments'' [(''args'', FList [INode (Arg ''a'' None None), INode (Arg ''b'' None None)])])
                   (Expr (Constant (PStr ''Add two numbers'') None) # 
                   [Other ''Return'' [(''value'', FNode (Other ''BinOp'' [(''left'', FNode (Name ''a'' Load)), (''op'', FNode (Other ''Add'' [])), (''right'', FNode (Name ''b'' Load))]))]]) [] None None [] # []) [])
        ''eng'') =
   Inr ''Module([FunctionDef(_ouverture_v_0, arguments(args=[arg(_ouverture_v_1), arg(_ouverture_v_2)]), [Return(value=BinOp(left=Name(_ouverture_v_1), op=Add(), right=Name(_ouverture_v_2)))], [], None, [])])''"
    by code_simp
  from normalize_ast_docstring_invariant[OF h1 h2, where unparse = module_dump and cleandoc = "\<lambda>s. s"
         and builtin_names = "{''print''}" and pre = "[]" and post = "[]" and ti = "[]"
         and name = "''add''" and ?lang1.0 = "''eng''" and ?lang2.0 = "''spa''", THEN conjunct1]
  have "without_docstring_code
     (normalize_ast module_dump (\<lambda>s. s) {''print''}
        (Module ([] @ FunctionDef ''add'' (Other ''arguments'' [(''args'', FList [INode (Arg ''a'' None None), INode (Arg ''b'' None None)])])
                   (Expr (Constant (PStr ''Add two numbers'') None) # 
                   [Other ''Return'' [(''value'', FNode (Other ''BinOp'' [(''left'', FNode (Name ''a'' Load)), (''op'', FNode (Other ''Add'' [])), (''right'', FNode (Name ''b'' Load))]))]]) [] None None [] # []) [])
        ''eng'') =
   without_docstring_code
     (normalize_ast module_dump (\<lambda>s. s) {''print''}
        (Module ([] @ FunctionDef ''add'' (Other ''arguments'' [(''args'', FList [INode (Arg ''a'' None None), INode (Arg ''b'' None None)])])
                   ([Expr (Constant (PStr ''Suma dos numeros'') None)] @ 
                   [Other ''Return'' [(''value'', FNode (Other ''BinOp'' [(''left'', FNode (Name ''a'' Load)), (''op'', FNode (Other ''Add'' [])), (''right'', FNode (Name ''b'' Load))]))]]) [] None None [] # []) [])
        ''spa'')"
    .
  with h1 e show ?thesis by simp
qed

section \<open>Properties of normalize_ast: renaming\<close>

lemma walk_field_sub:
  assumes "(k, f) \<in> set fs" "z \<in> set_field f"
  shows "set (walk z) \<subseteq> set (walk (Other class_name fs))"
proof
  fix x assume x: "x \<in> set (walk z)"
  have "x \<in> set (case f of FAtom a \<Rightarrow> [] | FNode n \<Rightarrow> walk n
                   | FList its \<Rightarrow> concat (map (\<lambda>i. case i of INode n \<Rightarrow> walk n | IAtom a \<Rightarrow> []) its))"
  proof (cases f)
    case (FAtom a)
    then show ?thesis using assms(2) by simp
  next
    case (FNode n)
    then show ?thesis using assms(2) x by simp
  next
    case (FList its)
    with assms(2) obtain it where it: "it \<in> set its" "z \<in> set_item it" by auto
    from it(2) have "it = INode z" by (cases it) simp_all
    with it(1) have "INode z \<in> set its" by simp
    then have "x \<in> set (concat (map (\<lambda>i. case i of INode n \<Rightarrow> walk n | IAtom a \<Rightarrow> []) its))"
      using x by (force simp: image_iff)
    then show ?thesis using FList by simp
  qed
  then have "x \<in> set (concat (map (\<lambda>(k, f). case f of FAtom a \<Rightarrow> [] | FNode n \<Rightarrow> walk n
                   | FList its \<Rightarrow> concat (map (\<lambda>i. case i of INode n \<Rightarrow> walk n | IAtom a \<Rightarrow> []) its)) fs))"
    using assms(1) by force
  then show "x \<in> set (walk (Other class_name fs))" by simp
qed

lemma walk_FunctionDef_sub:
  fixes name args stmts decorator_list returns type_comment type_params
  defines "t \<equiv> FunctionDef name args stmts decorator_list returns type_comment type_params"
  shows "set (walk args) \<subseteq> set (walk t)"
    and "x \<in> set stmts \<Longrightarrow> set (walk x) \<subseteq> set (walk t)"
    and "x \<in> set decorator_list \<Longrightarrow> set (walk x) \<subseteq> set (walk t)"
    and "returns = Some x \<Longrightarrow> set (walk x) \<subseteq> set (walk t)"
    and "x \<in> set type_params \<Longrightarrow> set (walk x) \<subseteq> set (walk t)"
  unfolding t_def by auto

lemma transform_agrees:
  "(\<And>n. n \<in> set (walk t) \<Longrightarrow> agrees r am fm1 fm2 n) \<Longrightarrow>
     visit fm2 (replace_calls am (rename r t)) = visit fm1 (replace_calls am t)"
proof (induction r t rule: rename.induct)
  case (1 r name args stmts decorator_list returns type_comment type_params)
  let ?t = "FunctionDef name args stmts decorator_list returns type_comment type_params"
  have n: "mapped fm2 (r name) = mapped fm1 name" using "1.prems"[of ?t] by simp
  have a: "visit fm2 (replace_calls am (rename r args)) = visit fm1 (replace_calls am args)"
    using "1.prems" walk_FunctionDef_sub(1)[of args name stmts decorator_list returns type_comment type_params]
    by (intro "1.IH"(1)) blast
  have s: "visit fm2 (replace_calls am (rename r x)) = visit fm1 (replace_calls am x)" if "x \<in> set stmts" for x
    using "1.prems" walk_FunctionDef_sub(2)[OF that, of name args decorator_list returns type_comment type_params] that
    by (intro "1.IH"(2)) blast+
  have d: "visit fm2 (replace_calls am (rename r x)) = visit fm1 (replace_calls am x)" if "x \<in> set decorator_list" for x
    using "1.prems" walk_FunctionDef_sub(3)[OF that, of name args stmts returns type_comment type_params] that
    by (intro "1.IH"(3)) blast+
  have rt: "visit fm2 (replace_calls am (rename r x)) = visit fm1 (replace_calls am x)" if "returns = Some x" for x
    using "1.prems" walk_FunctionDef_sub(4)[OF that, of name args stmts decorator_list type_comment type_params] that
    by (intro "1.IH"(4)) blast+
  have tp: "visit fm2 (replace_calls am (rename r x)) = visit fm1 (replace_calls am x)" if "x \<in> set type_params" for x
    using "1.prems" walk_FunctionDef_sub(5)[OF that, of name args stmts decorator_list returns type_comment] that
    by (intro "1.IH"(5)) blast+
  show ?case using n a s d rt tp by (cases returns) (simp_all add: o_def)
next
  case (2 r a annotation type_comment)
  show ?case using "2.prems"[of "Arg a annotation type_comment"] by simp
next
  case (3 r i ctx)
  show ?case using "3.prems"[of "Name i ctx"] by simp
next
  case (4 r v)
  show ?case using "4.prems" by (simp add: "4.IH")
next
  case (5 r v a c)
  show ?case using "5.prems" by (simp add: "5.IH")
next
  case (6 r class_name fs)
  have "map_field (\<lambda>z. visit fm2 (replace_calls am (rename r z))) f =
        map_field (\<lambda>z. visit fm1 (replace_calls am z)) f" if "(k, f) \<in> set fs" for k f
  proof (rule field.map_cong[OF refl])
    fix z assume z: "z \<in> set_field f"
    have "set (walk z) \<subseteq> set (walk (Other class_name fs))" using that z by (rule walk_field_sub)
    then show "visit fm2 (replace_calls am (rename r z)) = visit fm1 (replace_calls am z)"
      using "6.prems" that z by (intro "6.IH"[of "(k, f)" f z]) (simp_all, blast)
  qed
  then show ?case
    by (auto simp: field.map_comp o_def)
qed simp_all


lemma walk_self: "t \<in> set (walk t)"
  by (cases t) simp_all

lemma rename_id:
  "(\<And>n x. n \<in> set (walk t) \<Longrightarrow> ident_of_node n = Some x \<Longrightarrow> r x = x) \<Longrightarrow> rename r t = t"
proof (induction r t rule: rename.induct)
  case (1 r name args stmts decorator_list returns type_comment type_params)
  let ?t = "FunctionDef name args stmts decorator_list returns type_comment type_params"
  have n: "r name = name" using "1.prems"[of ?t name] by simp
  have a: "rename r args = args"
    using "1.prems" walk_FunctionDef_sub(1)[of args name stmts decorator_list returns type_comment type_params]
    by (intro "1.IH"(1)) blast
  have s: "rename r x = x" if "x \<in> set stmts" for x
    using "1.prems" walk_FunctionDef_sub(2)[OF that, of name args decorator_list returns type_comment type_params] that
    by (intro "1.IH"(2)) blast+
  have d: "rename r x = x" if "x \<in> set decorator_list" for x
    using "1.prems" walk_FunctionDef_sub(3)[OF that, of name args stmts returns type_comment type_params] that
    by (intro "1.IH"(3)) blast+
  have rt: "rename r x = x" if "returns = Some x" for x
    using "1.prems" walk_FunctionDef_sub(4)[OF that, of name args stmts decorator_list type_comment type_params] that
    by (intro "1.IH"(4)) blast+
  have tp: "rename r x = x" if "x \<in> set type_params" for x
    using "1.prems" walk_FunctionDef_sub(5)[OF that, of name args stmts decorator_list returns type_comment] that
    by (intro "1.IH"(5)) blast+
  show ?case using n a s d rt tp by (cases returns) (simp_all add: map_idI)
next
  case (2 r a annotation type_comment)
  have n: "r a = a" using "2.prems"[of "Arg a annotation type_comment" a] by simp
  have "rename r e = e" if "annotation = Some e" for e
    using "2.prems" that by (intro "2.IH") auto
  then show ?case using n by (cases annotation) simp_all
next
  case (3 r i ctx)
  show ?case using "3.prems"[of "Name i ctx" i] by simp
next
  case (4 r v)
  have "rename r v = v" using "4.prems" by (intro "4.IH") auto
  then show ?case by simp
next
  case (5 r v a c)
  have "rename r v = v" using "5.prems" by (intro "5.IH") auto
  then show ?case by simp
next
  case (6 r class_name fs)
  have "map_field (rename r) f = f" if "(k, f) \<in> set fs" for k f
  proof -
    have "map_field (rename r) f = map_field (\<lambda>z. z) f"
    proof (rule field.map_cong[OF refl])
      fix z assume z: "z \<in> set_field f"
      have "set (walk z) \<subseteq> set (walk (Other class_name fs))" using that z by (rule walk_field_sub)
      then show "rename r z = z"
        using "6.prems" that z by (intro "6.IH"[of "(k, f)" f z]) (simp_all, blast)
    qed
    then show ?thesis by (simp add: field.map_ident)
  qed
  then have "map (map_prod id (map_field (rename r))) fs = fs"
    by (intro map_idI) auto
  then show ?case by simp
qed simp_all

lemma walk_rename: "walk (rename r t) = map (rename r) (walk t)"
proof (induction r t rule: rename.induct)
  case (1 r name args stmts decorator_list returns type_comment type_params)
  have s: "concat (map (\<lambda>x. walk (rename r x)) xs) = map (rename r) (concat (map walk xs))"
    if "\<And>x. x \<in> set xs \<Longrightarrow> walk (rename r x) = map (rename r) (walk x)" for xs
    using that by (induction xs) simp_all
  show ?case
    using "1.IH"(1) s[OF "1.IH"(2)] s[OF "1.IH"(3)] s[OF "1.IH"(5)] "1.IH"(4)
    by (cases returns) (simp_all add: o_def)
next
  case (2 r a annotation type_comment)
  then show ?case by (cases annotation) simp_all
next
  case (6 r class_name fs)
  let ?fw = "\<lambda>f. case f of FAtom a \<Rightarrow> [] | FNode n \<Rightarrow> walk n
                | FList its \<Rightarrow> concat (map (\<lambda>i. case i of INode n \<Rightarrow> walk n | IAtom a \<Rightarrow> []) its)"
  have fw: "?fw (map_field (rename r) f) = map (rename r) (?fw f)" if kf: "(k, f) \<in> set fs" for k f
  proof (cases f)
    case (FAtom a)
    then show ?thesis by simp
  next
    case (FNode n)
    then show ?thesis using "6.IH"[of "(k, f)" f n] kf by simp
  next
    case (FList its)
    have "(case map_item (rename r) it of INode n \<Rightarrow> walk n | IAtom a \<Rightarrow> []) =
          map (rename r) (case it of INode n \<Rightarrow> walk n | IAtom a \<Rightarrow> [])" if "it \<in> set its" for it
    proof (cases it)
      case (INode n)
      have "n \<in> set_field f" using FList that INode by force
      then show ?thesis using "6.IH"[of "(k, f)" f n] kf INode by simp
    next
      case (IAtom a)
      then show ?thesis by simp
    qed
    then have "concat (map (\<lambda>it. case map_item (rename r) it of INode n \<Rightarrow> walk n | IAtom a \<Rightarrow> []) its) =
          concat (map (\<lambda>it. map (rename r) (case it of INode n \<Rightarrow> walk n | IAtom a \<Rightarrow> [])) its)"
      by (intro arg_cong[where f = concat] map_cong) simp_all
    then show ?thesis using FList by (simp add: o_def map_concat)
  qed
  have "concat (map (\<lambda>(k, f). ?fw (map_field (rename r) f)) fs) =
        concat (map (\<lambda>(k, f). map (rename r) (?fw f)) fs)"
    by (intro arg_cong[where f = concat] map_cong) (auto simp: fw)
  then show ?case
    by (simp add: o_def case_prod_unfold map_concat)
qed simp_all

lemma name_of_node_rename: "name_of_node (rename r n) = map_option r (name_of_node n)"
  by (cases n) simp_all

lemma ident_of_node_rename: "ident_of_node (rename r n) = map_option r (ident_of_node n)"
  by (cases n) simp_all

lemma map_filter_map_option:
  "(\<And>n. f (g n) = map_option r (f n)) \<Longrightarrow> List.map_filter f (map g xs) = map r (List.map_filter f xs)"
  by (induction xs) (auto simp: List.map_filter_simps split: option.splits)

lemma used_names_rename: "used_names (rename r t) = r ` used_names t"
  unfolding used_names_def walk_rename
  by (simp add: map_filter_map_option[of name_of_node, OF name_of_node_rename])

lemma is_docstring_stmt_rename: "is_docstring_stmt (rename r s) = is_docstring_stmt s"
proof (cases s)
  case (Expr v)
  then show ?thesis
  proof (cases v)
    case (Constant c k)
    then show ?thesis using Expr by (cases c) simp_all
  qed simp_all
qed simp_all

lemma without_docstring_rename:
  "without_docstring (rename r t) = rename r (without_docstring t)"
proof (cases t)
  case (FunctionDef name args stmts decorator_list returns type_comment type_params)
  then show ?thesis
    by (cases stmts) (simp_all add: is_docstring_stmt_rename)
qed simp_all

lemma sorted_list_of_set_image:
  assumes "finite N" "\<And>x y. x \<in> N \<Longrightarrow> y \<in> N \<Longrightarrow> x < y \<Longrightarrow> r x < r y"
  shows "sorted_list_of_set (r ` N) = map r (sorted_list_of_set (N :: string set))"
proof -
  let ?ns = "sorted_list_of_set N"
  have set: "set ?ns = N" and d: "distinct ?ns" and s: "sorted ?ns" using assms(1) by simp_all
  have mono: "r x \<le> r y" if "x \<in> N" "y \<in> N" "x \<le> y" for x y
  proof (cases "x = y")
    case True
    then show ?thesis by simp
  next
    case False
    with that(3) have "x < y" by simp
    from assms(2)[OF that(1,2) this] show ?thesis by simp
  qed
  have inj: "inj_on r N"
  proof (rule inj_onI)
    fix x y assume "x \<in> N" "y \<in> N" "r x = r y"
    then show "x = y" using assms(2)[of x y] assms(2)[of y x] by (cases x y rule: linorder_cases) auto
  qed
  have "sorted (map r ?ns)"
    using s set mono by (auto simp: sorted_map sorted_wrt_iff_nth_less intro!: mono nth_mem)
  moreover have "distinct (map r ?ns)" using d inj set by (simp add: distinct_map)
  moreover have "set (map r ?ns) = r ` N" using set by simp
  ultimately show ?thesis
    by (metis sorted_list_of_set.idem_if_sorted_distinct)
qed

lemma map_of_map_keys_inj:
  assumes "\<And>k. k \<in> fst ` set fm \<Longrightarrow> r k = r x \<Longrightarrow> k = x"
  shows "map_of (map (\<lambda>(k, v). (r k, v)) fm) (r x) = map_of fm x"
  using assms
proof (induction fm)
  case Nil
  show ?case by simp
next
  case (Cons kv fm)
  obtain a b where kv: "kv = (a, b)" by (cases kv)
  have ih: "map_of (map (\<lambda>(k, v). (r k, v)) fm) (r x) = map_of fm x"
    using Cons.prems by (intro Cons.IH) auto
  show ?case
  proof (cases "r a = r x")
    case True
    then have "a = x" using Cons.prems[of a] kv by simp
    then show ?thesis using kv by simp
  next
    case False
    then have "a \<noteq> x" by auto
    then show ?thesis using kv False ih by simp
  qed
qed


lemma set_map_filter: "set (List.map_filter f xs) = {y. \<exists>x \<in> set xs. f x = Some y}"
  by (induction xs) (auto simp: List.map_filter_simps split: option.splits)

lemma used_names_sub_idents: "used_names t \<subseteq> idents t"
proof -
  have "name_of_node n = Some x \<Longrightarrow> ident_of_node n = Some x" for n x by (cases n) simp_all
  then show ?thesis unfolding used_names_def idents_def set_map_filter by blast
qed

lemma function_name_ident: "is_FunctionDef fd \<Longrightarrow> function_name fd \<in> idents fd"
proof -
  assume "is_FunctionDef fd"
  then have "ident_of_node fd = Some (function_name fd)" by (cases fd) simp_all
  then show ?thesis unfolding idents_def set_map_filter using walk_self[of fd] by blast
qed

lemma function_name_rename: "is_FunctionDef fd \<Longrightarrow> function_name (rename r fd) = r (function_name fd)"
  by (cases fd) simp_all

lemma is_FunctionDef_rename: "is_FunctionDef (rename r fd) = is_FunctionDef fd"
  by (cases fd) simp_all

lemma collected_names_eq:
  "collected_names b t imps al =
     used_names t - (set (concat (map imported_by imps)) \<union> b \<union> al) - {function_name t}"
  by (auto simp: collected_names_def used_names_def Let_def)

lemma alias_loop_names:
  "fst (alias_loop names am acc) = acc @ map (\<lambda>a. Alias (alias_name a) None) names"
  by (induction names am acc rule: alias_loop.induct) simp_all

lemma alias_loop_keys:
  "fst ` set (snd (alias_loop names am acc)) \<subseteq> fst ` set am \<union> alias_name ` set names"
proof (induction names am acc rule: alias_loop.induct)
  case (1 alias_mapping new_names)
  show ?case by simp
next
  case (2 name asn rest alias_mapping new_names)
  have "fst ` set (case asn of Some a \<Rightarrow> if a \<noteq> [] then AList.update name a alias_mapping else alias_mapping
                    | None \<Rightarrow> alias_mapping) \<subseteq> insert name (fst ` set alias_mapping)"
    by (auto simp: dom_update split: option.splits)
  with 2 show ?case by auto
qed

lemma rewrite_loop_step:
  "\<exists>imp' am'. rewrite_loop (imp # rest) acc am = rewrite_loop rest (acc @ [imp']) am' \<and>
      (is_import imp \<longrightarrow> is_import imp') \<and>
      fst ` set am' \<subseteq> fst ` set am \<union> set (imported_by imp')"
proof (cases imp)
  case (ImportFrom modname names level)
  show ?thesis
  proof (cases "modname = Some ''ouverture''")
    case True
    obtain new_names am' where al: "alias_loop names am [] = (new_names, am')"
      by (cases "alias_loop names am []")
    have nn: "new_names = map (\<lambda>a. Alias (alias_name a) None) names"
      using alias_loop_names[of names am "[]"] al by simp
    have keys: "fst ` set am' \<subseteq> fst ` set am \<union> alias_name ` set names"
      using alias_loop_keys[of names am "[]"] al by simp
    have imp: "set (map local_name new_names) = alias_name ` set names"
      unfolding nn by (simp add: o_def)
    have "rewrite_loop (imp # rest) acc am =
            rewrite_loop rest (acc @ [ImportFrom (Some ''couverture'') new_names (Some 0)]) am'"
      using ImportFrom True al by simp
    moreover have "fst ` set am' \<subseteq> fst ` set am \<union> set (imported_by (ImportFrom (Some ''couverture'') new_names (Some 0)))"
      using keys imp by simp
    ultimately show ?thesis by (intro exI[of _ "ImportFrom (Some ''couverture'') new_names (Some 0)"] exI[of _ am']) simp
  next
    case False
    then have "rewrite_loop (imp # rest) acc am = rewrite_loop rest (acc @ [imp]) am"
      using ImportFrom by (cases modname) simp_all
    then show ?thesis by (intro exI[of _ imp] exI[of _ am]) simp
  qed
qed (rule exI[of _ imp], rule exI[of _ am], simp)+

lemma rewrite_loop_invariant:
  assumes "\<forall>n \<in> set xs. is_import n" "\<forall>n \<in> set acc. is_import n"
    and "fst ` set am \<subseteq> set (concat (map imported_by acc))"
  shows "(\<forall>n \<in> set (fst (rewrite_loop xs acc am)). is_import n) \<and>
         fst ` set (snd (rewrite_loop xs acc am)) \<subseteq> set (concat (map imported_by (fst (rewrite_loop xs acc am))))"
  using assms
proof (induction xs arbitrary: acc am)
  case Nil
  then show ?case by simp
next
  case (Cons imp rest)
  from rewrite_loop_step[of imp rest acc am] obtain imp' am' where
    st: "rewrite_loop (imp # rest) acc am = rewrite_loop rest (acc @ [imp']) am'"
    and i: "is_import imp \<longrightarrow> is_import imp'"
    and k: "fst ` set am' \<subseteq> fst ` set am \<union> set (imported_by imp')"
    by blast
  have a: "\<forall>n \<in> set rest. is_import n" using Cons.prems(1) by simp
  have b: "\<forall>n \<in> set (acc @ [imp']). is_import n" using Cons.prems(1,2) i by simp
  have c: "fst ` set am' \<subseteq> set (concat (map imported_by (acc @ [imp'])))"
    using k Cons.prems(3) by auto
  show ?case unfolding st by (rule Cons.IH[OF a b c])
qed

lemma rewrite_ouverture_imports_props:
  assumes "\<forall>n \<in> set xs. is_import n" "rewrite_ouverture_imports xs = (imps, am)"
  shows "\<forall>n \<in> set imps. is_import n" and "fst ` set am \<subseteq> set (concat (map imported_by imps))"
  using rewrite_loop_invariant[OF assms(1), of "[]" "[]"] assms(2)
  by (simp_all add: rewrite_ouverture_imports_def)


lemma renamed_mapping:
  assumes fdF: "is_FunctionDef fd"
    and X: "X = set (concat (map imported_by imps)) \<union> b \<union> al"
    and ok: "order_preserving_renaming r X fd"
  shows "fst (create_name_mapping b (rename r fd) imps al) =
           map (\<lambda>(k, v). (r k, v)) (fst (create_name_mapping b fd imps al))"
    and "fst ` set (fst (create_name_mapping b fd imps al)) =
           insert (function_name fd) (used_names fd - X - {function_name fd})"
proof -
  let ?F = "function_name fd"
  let ?N1 = "used_names fd - X - {?F}"
  have inj: "\<And>x y. x \<in> idents fd \<Longrightarrow> y \<in> idents fd \<Longrightarrow> r x = r y \<Longrightarrow> x = y"
    and fixX: "\<And>x. x \<in> idents fd \<Longrightarrow> x \<in> X \<Longrightarrow> r x = x"
    and avoid: "\<And>x. x \<in> idents fd \<Longrightarrow> x \<notin> X \<Longrightarrow> r x \<notin> X"
    and mono: "\<And>x y. x \<in> ?N1 \<Longrightarrow> y \<in> ?N1 \<Longrightarrow> x < y \<Longrightarrow> r x < r y"
    using ok unfolding order_preserving_renaming_def by blast+
  have Fi: "?F \<in> idents fd" using fdF by (rule function_name_ident)
  have ui: "used_names fd \<subseteq> idents fd" by (rule used_names_sub_idents)
  have c1: "collected_names b fd imps al = ?N1" by (simp add: collected_names_eq X)
  have c2: "collected_names b (rename r fd) imps al = r ` used_names fd - X - {r ?F}"
    by (simp add: collected_names_eq X used_names_rename function_name_rename[OF fdF])
  have img: "r ` used_names fd - X - {r ?F} = r ` ?N1"
  proof (rule set_eqI, rule iffI)
    fix y assume "y \<in> r ` used_names fd - X - {r ?F}"
    then obtain x where x: "x \<in> used_names fd" "y = r x" "r x \<notin> X" "r x \<noteq> r ?F" by auto
    have "x \<notin> X" using fixX[of x] x(1,3) ui by auto
    moreover have "x \<noteq> ?F" using x(4) by auto
    ultimately show "y \<in> r ` ?N1" using x(1,2) by auto
  next
    fix y assume "y \<in> r ` ?N1"
    then obtain x where x: "x \<in> used_names fd" "x \<notin> X" "x \<noteq> ?F" "y = r x" by auto
    have "r x \<notin> X" using avoid[of x] x(1,2) ui by auto
    moreover have "r x \<noteq> r ?F" using inj[of x ?F] x(1,3) ui Fi by auto
    ultimately show "y \<in> r ` used_names fd - X - {r ?F}" using x(1,4) by auto
  qed
  have fin: "finite ?N1" by (simp add: used_names_def)
  let ?ns = "sorted_list_of_set ?N1"
  have ns2: "sorted_list_of_set (r ` ?N1) = map r ?ns"
    using fin mono by (rule sorted_list_of_set_image)
  have f1: "fst (create_name_mapping b fd imps al) =
              (?F, designator 0) # zip ?ns (map designator [1 ..< 1 + length ?ns])"
    using create_name_mapping_eq[of b fd imps al] c1 by simp
  have f2: "fst (create_name_mapping b (rename r fd) imps al) =
              (r ?F, designator 0) # zip (map r ?ns) (map designator [1 ..< 1 + length ?ns])"
    using create_name_mapping_eq[of b "rename r fd" imps al] c2 img ns2
    by (simp add: function_name_rename[OF fdF])
  show "fst (create_name_mapping b (rename r fd) imps al) =
           map (\<lambda>(k, v). (r k, v)) (fst (create_name_mapping b fd imps al))"
    unfolding f1 f2 by (simp add: zip_map1 del: upt_Suc)
  have "fst ` set (zip ?ns (map designator [1 ..< 1 + length ?ns])) = set ?ns"
    using map_fst_zip[of ?ns "map designator [1 ..< 1 + length ?ns]"]
    by (metis (no_types, lifting) add_diff_cancel_left' length_map length_upt list.set_map)
  then show "fst ` set (fst (create_name_mapping b fd imps al)) = insert ?F ?N1"
    unfolding f1 using fin by (simp del: upt_Suc)
qed

lemma annotation_identsI:
  "Arg a (Some e) tc \<in> set (walk t) \<Longrightarrow> x \<in> set (List.map_filter ident_of_node (walk e)) \<Longrightarrow>
     x \<in> annotation_idents t"
proof -
  assume m: "Arg a (Some e) tc \<in> set (walk t)" and x: "x \<in> set (List.map_filter ident_of_node (walk e))"
  have "x \<in> set (concat (map (\<lambda>e. List.map_filter ident_of_node (walk e)) (annotation_of (Arg a (Some e) tc))))"
    using x by simp
  then have "\<exists>n \<in> set (walk t). x \<in> set (concat (map (\<lambda>e. List.map_filter ident_of_node (walk e)) (annotation_of n)))"
    using m by blast
  then show ?thesis unfolding annotation_idents_def by simp
qed

lemma renamed_agrees:
  assumes fdF: "is_FunctionDef fd"
    and X: "X = set (concat (map imported_by imps)) \<union> b \<union> set (map snd am)"
    and keys: "fst ` set am \<subseteq> set (concat (map imported_by imps))"
    and ok: "order_preserving_renaming r X fd"
    and fm1: "fm1 = fst (create_name_mapping b fd imps (set (map snd am)))"
    and fm2: "fm2 = fst (create_name_mapping b (rename r fd) imps (set (map snd am)))"
  shows "\<And>x. x \<in> idents fd \<Longrightarrow> mapped fm2 (r x) = mapped fm1 x"
    and "\<And>n. n \<in> set (walk fd) \<Longrightarrow> agrees r am fm1 fm2 n"
proof -
  let ?F = "function_name fd"
  let ?N1 = "used_names fd - X - {?F}"
  have inj: "\<And>x y. x \<in> idents fd \<Longrightarrow> y \<in> idents fd \<Longrightarrow> r x = r y \<Longrightarrow> x = y"
    and fixX: "\<And>x. x \<in> idents fd \<Longrightarrow> x \<in> X \<Longrightarrow> r x = x"
    and avoid: "\<And>x. x \<in> idents fd \<Longrightarrow> x \<notin> X \<Longrightarrow> r x \<notin> X"
    and unused: "\<And>x. x \<in> idents fd \<Longrightarrow> x \<notin> used_names fd \<Longrightarrow> x \<noteq> ?F \<Longrightarrow> r x = x"
    and ann: "\<And>x. x \<in> annotation_idents fd \<Longrightarrow> r x = x"
    using ok unfolding order_preserving_renaming_def by blast+
  have Fi: "?F \<in> idents fd" using fdF by (rule function_name_ident)
  have ui: "used_names fd \<subseteq> idents fd" by (rule used_names_sub_idents)
  have rel: "fm2 = map (\<lambda>(k, v). (r k, v)) fm1"
    and dom1: "fst ` set fm1 = insert ?F ?N1"
    using renamed_mapping[OF fdF X ok] fm1 fm2 by simp_all
  have dom_sub: "fst ` set fm1 \<subseteq> idents fd" using dom1 Fi ui by auto
  have look: "map_of fm2 (r x) = map_of fm1 x" if "x \<in> idents fd" for x
    unfolding rel using inj[OF _ that] dom_sub by (intro map_of_map_keys_inj) blast
  show K: "mapped fm2 (r x) = mapped fm1 x" if x: "x \<in> idents fd" for x
  proof (cases "map_of fm1 x")
    case None
    then have "x \<notin> insert ?F ?N1" using dom1 by (simp add: map_of_eq_None_iff)
    then have "r x = x" using fixX[OF x] unused[OF x] by (cases "x \<in> X") auto
    then show ?thesis using None look[OF x] by (simp add: mapped_def)
  next
    case (Some v)
    then show ?thesis using look[OF x] by (simp add: mapped_def)
  qed
  have H: "mapped fm2 h = mapped fm1 h" if "(h, a) \<in> set am" for h a
  proof (cases "h = ?F")
    case True
    have hX: "h \<in> X" using that keys X by force
    then have "r ?F = ?F" using fixX[OF Fi] True by simp
    then show ?thesis using K[OF Fi] True by simp
  next
    case False
    have hX: "h \<in> X" using that keys X by force
    have n1: "h \<notin> fst ` set fm1" using dom1 hX False by auto
    have "h \<noteq> r ?F" using fixX[OF Fi] avoid[OF Fi] hX False by (cases "?F \<in> X") auto
    moreover have "h \<notin> r ` ?N1" using avoid ui hX by auto
    moreover have "fst ` set fm2 = r ` fst ` set fm1" unfolding rel by (force simp: image_iff)
    ultimately have n2: "h \<notin> fst ` set fm2" using dom1 by auto
    show ?thesis using n1 n2 by (simp add: mapped_def map_of_eq_None_iff[THEN iffD2])
  qed
  show "agrees r am fm1 fm2 n" if n: "n \<in> set (walk fd)" for n
  proof (cases n)
    case (Name i ctx)
    have iu: "i \<in> used_names fd" using n Name unfolding used_names_def set_map_filter by force
    then have ii: "i \<in> idents fd" using ui by auto
    have al: "r i \<in> set (map snd am) \<longleftrightarrow> i \<in> set (map snd am)" and "i \<in> set (map snd am) \<Longrightarrow> r i = i"
      using fixX[OF ii] avoid[OF ii] X by (cases "i \<in> X"; auto)+
    show ?thesis
    proof (cases "i \<in> set (map snd am)")
      case True
      then have ri: "r i = i" using fixX[OF ii] X by auto
      from True obtain p where p: "find (\<lambda>(func_hash, a). i = a) am = Some p"
        by (cases "find (\<lambda>(func_hash, a). i = a) am") (auto simp: find_None_iff)
      obtain h a where ha: "p = (h, a)" by (cases p)
      have "(h, a) \<in> set am" using p ha by (auto simp: find_Some_iff in_set_conv_nth)
      from H[OF this] show ?thesis using Name ri p ha by simp
    next
      case False
      then have "r i \<notin> set (map snd am)" using al by simp
      then have "find (\<lambda>(func_hash, a). r i = a) am = None" "find (\<lambda>(func_hash, a). i = a) am = None"
        using False by (force simp: find_None_iff image_iff)+
      then show ?thesis using Name K[OF ii] by simp
    qed
  next
    case (Arg a annotation type_comment)
    have "a \<in> used_names fd" using n Arg unfolding used_names_def set_map_filter by force
    then have k: "mapped fm2 (r a) = mapped fm1 a" using K ui by auto
    have "rename r e = e" if e: "annotation = Some e" for e
    proof (rule rename_id)
      fix m x assume m: "m \<in> set (walk e)" "ident_of_node m = Some x"
      then have "x \<in> set (List.map_filter ident_of_node (walk e))" unfolding set_map_filter by blast
      then have "x \<in> annotation_idents fd"
        using n Arg e by (intro annotation_identsI[of a e type_comment]) simp_all
      then show "r x = x" by (rule ann)
    qed
    then have "map_option (rename r) annotation = annotation" by (cases annotation) simp_all
    then show ?thesis using Arg k by simp
  next
    case (FunctionDef name args stmts decorator_list returns type_comment type_params)
    have "name \<in> idents fd" using n FunctionDef unfolding idents_def set_map_filter by force
    then show ?thesis using FunctionDef K by simp
  qed simp_all
qed


lemma import_fixed: "is_import n \<Longrightarrow> replace_calls am n = n \<and> visit fm n = n"
  by (cases n) simp_all

lemma walk_without_docstring:
  "set (walk (without_docstring fd)) \<subseteq> insert (without_docstring fd) (set (walk fd))"
proof (cases fd)
  case (FunctionDef name args stmts decorator_list returns type_comment type_params)
  have "set (concat (map walk (tl stmts))) \<subseteq> set (concat (map walk stmts))"
    by (cases stmts) auto
  then show ?thesis using FunctionDef by auto
qed simp_all

lemma agrees_without_docstring:
  "agrees r am fm1 fm2 (without_docstring fd) = agrees r am fm1 fm2 fd"
  by (cases fd) simp_all

lemma hashed_module:
  assumes "\<forall>n \<in> set imps. is_import n"
  shows "snd (normalized_modules am fm imps fd fwd) = Module (imps @ [visit fm (replace_calls am fwd)]) []"
proof -
  have "map (\<lambda>n. visit fm (replace_calls am n)) imps = imps"
    using assms by (intro map_idI) (simp add: import_fixed)
  then show ?thesis
    unfolding normalized_modules_without
    by (simp add: process_module_def ASTNormalizer_visit_def replace_ouverture_calls_def o_def)
qed

text \<open>
  Claim C1, as the code has it.  Let a unit hold the function \<open>fd\<close>, and let a second unit
  differ from it only in that the function's name and the identifiers of its \<open>Name\<close> and
  \<open>arg\<close> nodes are renamed by \<open>r\<close>.  If \<open>r\<close> is an
  \<^const>\<open>order_preserving_renaming\<close> for the names that \<open>create_name_mapping\<close> excludes
  (injective, order-preserving on the collected names, the identity on imported, built-in
  and alias names, on the identifiers inside parameter annotations and on the names of nested
  functions that no \<open>Name\<close> node refers to), then \<open>normalize_ast\<close> returns the same rendering
  without docstring for both units (or raises the same exception), and \<open>compute_hash\<close> gives
  them the same hash.
\<close>

theorem normalize_ast_renaming_invariant:
  assumes fdF: "is_FunctionDef fd"
    and ok: "order_preserving_renaming r
               (excluded_names builtin_names (sort_key import_key (filter is_import (pre @ post)))) fd"
  shows "without_docstring_code
           (normalize_ast unparse cleandoc builtin_names (Module (pre @ rename r fd # post) ti) lang2) =
         without_docstring_code
           (normalize_ast unparse cleandoc builtin_names (Module (pre @ fd # post) ti) lang1) \<and>
         map_sum id (compute_hash sha256)
           (without_docstring_code
              (normalize_ast unparse cleandoc builtin_names (Module (pre @ rename r fd # post) ti) lang2)) =
         map_sum id (compute_hash sha256)
           (without_docstring_code
              (normalize_ast unparse cleandoc builtin_names (Module (pre @ fd # post) ti) lang1))"
proof -
  let ?I = "sort_key import_key (filter is_import (pre @ post))"
  obtain imps am where rw: "rewrite_ouverture_imports ?I = (imps, am)"
    by (cases "rewrite_ouverture_imports ?I")
  let ?al = "set (map snd am)"
  let ?X = "set (concat (map imported_by imps)) \<union> builtin_names \<union> ?al"
  have X: "excluded_names builtin_names ?I = ?X" unfolding excluded_names_def rw by simp
  have allI: "\<forall>n \<in> set ?I. is_import n" by auto
  have imps: "\<forall>n \<in> set imps. is_import n"
    and keys: "fst ` set am \<subseteq> set (concat (map imported_by imps))"
    using rewrite_ouverture_imports_props[OF allI rw] by simp_all
  let ?fm1 = "fst (create_name_mapping builtin_names fd imps ?al)"
  let ?fm2 = "fst (create_name_mapping builtin_names (rename r fd) imps ?al)"
  have ok': "order_preserving_renaming r ?X fd" using ok X by simp
  have ag: "agrees r am ?fm1 ?fm2 n" if "n \<in> set (walk fd)" for n
    using renamed_agrees(2)[OF fdF refl keys ok' refl refl that] .
  have "agrees r am ?fm1 ?fm2 n" if "n \<in> set (walk (without_docstring fd))" for n
    using that walk_without_docstring[of fd] ag agrees_without_docstring[of r am ?fm1 ?fm2 fd] walk_self[of fd]
    by auto
  then have body: "visit ?fm2 (replace_calls am (rename r (without_docstring fd))) =
             visit ?fm1 (replace_calls am (without_docstring fd))"
    by (rule transform_agrees)
  have f2: "is_FunctionDef (rename r fd)" using fdF by (simp add: is_FunctionDef_rename)
  have eq: "without_docstring_code
           (normalize_ast unparse cleandoc builtin_names (Module (pre @ rename r fd # post) ti) lang2) =
         without_docstring_code
           (normalize_ast unparse cleandoc builtin_names (Module (pre @ fd # post) ti) lang1)"
  proof (cases "filter is_FunctionDef (pre @ post) = []")
    case True
    have n1: "without_docstring_code
           (normalize_ast unparse cleandoc builtin_names (Module (pre @ fd # post) ti) lang1) =
          Inr (unparse (snd (normalized_modules am ?fm1 imps fd (without_docstring fd))))"
      unfolding without_docstring_code_eq extract_around[OF fdF]
      unfolding True by (simp add: rw del: filter_append)
    have n2: "without_docstring_code
           (normalize_ast unparse cleandoc builtin_names (Module (pre @ rename r fd # post) ti) lang2) =
          Inr (unparse (snd (normalized_modules am ?fm2 imps (rename r fd) (without_docstring (rename r fd)))))"
      unfolding without_docstring_code_eq extract_around[OF f2]
      unfolding True by (simp add: rw del: filter_append)
    show ?thesis
      unfolding n1 n2 hashed_module[OF imps] without_docstring_rename body ..
  next
    case False
    show ?thesis
      unfolding without_docstring_code_eq extract_around[OF fdF] extract_around[OF f2]
      using False by (simp del: filter_append)
  qed
  then show ?thesis by simp
qed

theorem normalize_ast_renaming_invariant_witness:
  "is_FunctionDef 
       (FunctionDef ''add'' (Other ''arguments'' [(''args'', FList [INode (Arg ''a'' None None), INode (Arg ''b'' None None)])])
          [Other ''Return'' [(''value'', FNode (Other ''BinOp'' [(''left'', FNode (Name ''a'' Load)), (''op'', FNode (Other ''Sub'' [])),
                                                             (''right'', FNode (Name ''b'' Load))]))]] [] None None []) \<and>
   order_preserving_renaming 
     (\<lambda>s. if s = ''add'' then ''suma'' else if s = ''a'' then ''x'' else if s = ''b'' then ''y'' else s)
     (excluded_names {''print''} (sort_key import_key (filter is_import ([] @ [])))) 
       (FunctionDef ''add'' (Other ''arguments'' [(''args'', FList [INode (Arg ''a'' None None), INode (Arg ''b'' None None)])])
          [Other ''Return'' [(''value'', FNode (Other ''BinOp'' [(''left'', FNode (Name ''a'' Load)), (''op'', FNode (Other ''Sub'' [])),
                                                             (''right'', FNode (Name ''b'' Load))]))]] [] None None []) \<and>
   rename 
     (\<lambda>s. if s = ''add'' then ''suma'' else if s = ''a'' then ''x'' else if s = ''b'' then ''y'' else s) 
       (FunctionDef ''add'' (Other ''arguments'' [(''args'', FList [INode (Arg ''a'' None None), INode (Arg ''b'' None None)])])
          [Other ''Return'' [(''value'', FNode (Other ''BinOp'' [(''left'', FNode (Name ''a'' Load)), (''op'', FNode (Other ''Sub'' [])),
                                                             (''right'', FNode (Name ''b'' Load))]))]] [] None None []) = 
       (FunctionDef ''suma'' (Other ''arguments'' [(''args'', FList [INode (Arg ''x'' None None), INode (Arg ''y'' None None)])])
          [Other ''Return'' [(''value'', FNode (Other ''BinOp'' [(''left'', FNode (Name ''x'' Load)), (''op'', FNode (Other ''Sub'' [])),
                                                             (''right'', FNode (Name ''y'' Load))]))]] [] None None []) \<and>
   without_docstring_code (normalize_ast module_dump (\<lambda>s. s) {''print''} (Module ([] @ 
       (FunctionDef ''suma'' (Other ''arguments'' [(''args'', FList [INode (Arg ''x'' None None), INode (Arg ''y'' None None)])])
          [Other ''Return'' [(''value'', FNode (Other ''BinOp'' [(''left'', FNode (Name ''x'' Load)), (''op'', FNode (Other ''Sub'' [])),
                                                             (''right'', FNode (Name ''y'' Load))]))]] [] None None []) # []) []) ''spa'') =
   without_docstring_code (normalize_ast module_dump (\<lambda>s. s) {''print''} (Module ([] @ 
       (FunctionDef ''add'' (Other ''arguments'' [(''args'', FList [INode (Arg ''a'' None None), INode (Arg ''b'' None None)])])
          [Other ''Return'' [(''value'', FNode (Other ''BinOp'' [(''left'', FNode (Name ''a'' Load)), (''op'', FNode (Other ''Sub'' [])),
                                                             (''right'', FNode (Name ''b'' Load))]))]] [] None None []) # []) []) ''eng'')"
proof -
  have h1: "is_FunctionDef 
       (FunctionDef ''add'' (Other ''arguments'' [(''args'', FList [INode (Arg ''a'' None None), INode (Arg ''b'' None None)])])
          [Other ''Return'' [(''value'', FNode (Other ''BinOp'' [(''left'', FNode (Name ''a'' Load)), (''op'', FNode (Other ''Sub'' [])),
                                                             (''right'', FNode (Name ''b'' Load))]))]] [] None None [])" by simp
  have h2: "order_preserving_renaming 
     (\<lambda>s. if s = ''add'' then ''suma'' else if s = ''a'' then ''x'' else if s = ''b'' then ''y'' else s)
     (excluded_names {''print''} (sort_key import_key (filter is_import ([] @ [])))) 
       (FunctionDef ''add'' (Other ''arguments'' [(''args'', FList [INode (Arg ''a'' None None), INode (Arg ''b'' None None)])])
          [Other ''Return'' [(''value'', FNode (Other ''BinOp'' [(''left'', FNode (Name ''a'' Load)), (''op'', FNode (Other ''Sub'' [])),
                                                             (''right'', FNode (Name ''b'' Load))]))]] [] None None [])"
    by code_simp
  have h3: "rename 
     (\<lambda>s. if s = ''add'' then ''suma'' else if s = ''a'' then ''x'' else if s = ''b'' then ''y'' else s) 
       (FunctionDef ''add'' (Other ''arguments'' [(''args'', FList [INode (Arg ''a'' None None), INode (Arg ''b'' None None)])])
          [Other ''Return'' [(''value'', FNode (Other ''BinOp'' [(''left'', FNode (Name ''a'' Load)), (''op'', FNode (Other ''Sub'' [])),
                                                             (''right'', FNode (Name ''b'' Load))]))]] [] None None []) = 
       (FunctionDef ''suma'' (Other ''arguments'' [(''args'', FList [INode (Arg ''x'' None None), INode (Arg ''y'' None None)])])
          [Other ''Return'' [(''value'', FNode (Other ''BinOp'' [(''left'', FNode (Name ''x'' Load)), (''op'', FNode (Other ''Sub'' [])),
                                                             (''right'', FNode (Name ''y'' Load))]))]] [] None None [])" by simp
  from normalize_ast_renaming_invariant[OF h1 h2, where unparse = module_dump and cleandoc = "\<lambda>s. s"
         and ti = "[]" and ?lang1.0 = "''eng''" and ?lang2.0 = "''spa''", THEN conjunct1]
  have "without_docstring_code (normalize_ast module_dump (\<lambda>s. s) {''print''}
            (Module ([] @ rename 
     (\<lambda>s. if s = ''add'' then ''suma'' else if s = ''a'' then ''x'' else if s = ''b'' then ''y'' else s) 
       (FunctionDef ''add'' (Other ''arguments'' [(''args'', FList [INode (Arg ''a'' None None), INode (Arg ''b'' None None)])])
          [Other ''Return'' [(''value'', FNode (Other ''BinOp'' [(''left'', FNode (Name ''a'' Load)), (''op'', FNode (Other ''Sub'' [])),
                                                             (''right'', FNode (Name ''b'' Load))]))]] [] None None []) # []) []) ''spa'') =
        without_docstring_code (normalize_ast module_dump (\<lambda>s. s) {''print''} (Module ([] @ 
       (FunctionDef ''add'' (Other ''arguments'' [(''args'', FList [INode (Arg ''a'' None None), INode (Arg ''b'' None None)])])
          [Other ''Return'' [(''value'', FNode (Other ''BinOp'' [(''left'', FNode (Name ''a'' Load)), (''op'', FNode (Other ''Sub'' [])),
                                                             (''right'', FNode (Name ''b'' Load))]))]] [] None None []) # []) []) ''eng'')"
    .
  then have "without_docstring_code (normalize_ast module_dump (\<lambda>s. s) {''print''} (Module ([] @ 
       (FunctionDef ''suma'' (Other ''arguments'' [(''args'', FList [INode (Arg ''x'' None None), INode (Arg ''y'' None None)])])
          [Other ''Return'' [(''value'', FNode (Other ''BinOp'' [(''left'', FNode (Name ''x'' Load)), (''op'', FNode (Other ''Sub'' [])),
                                                             (''right'', FNode (Name ''y'' Load))]))]] [] None None []) # []) []) ''spa'') =
        without_docstring_code (normalize_ast module_dump (\<lambda>s. s) {''print''} (Module ([] @ 
       (FunctionDef ''add'' (Other ''arguments'' [(''args'', FList [INode (Arg ''a'' None None), INode (Arg ''b'' None None)])])
          [Other ''Return'' [(''value'', FNode (Other ''BinOp'' [(''left'', FNode (Name ''a'' Load)), (''op'', FNode (Other ''Sub'' [])),
                                                             (''right'', FNode (Name ''b'' Load))]))]] [] None None []) # []) []) ''eng'')"
    unfolding h3 .
  with h1 h2 h3 show ?thesis by (intro conjI)
qed

text \<open>
  Claim C1, as stated, fails.  Renaming the parameters \<open>a\<close>, \<open>b\<close> of
  \<open>def add(a, b): return a - b\<close> to \<open>z\<close>, \<open>y\<close> is injective and consistent, but it
  reverses their sorted order, and with it the designators: the renamed unit is rendered
  with \<open>_ouverture_v_2 - _ouverture_v_1\<close>, the original with \<open>_ouverture_v_1 - _ouverture_v_2\<close>.
  The renderer of the example writes the normalized module out node by node; any renderer
  that writes the identifiers out, as \<open>ast.unparse\<close> does, tells the two modules apart.
\<close>

theorem normalize_ast_renaming_counterexample:
  "rename 
     (\<lambda>s. if s = ''a'' then ''z'' else if s = ''b'' then ''y'' else s) 
       (FunctionDef ''add'' (Other ''arguments'' [(''args'', FList [INode (Arg ''a'' None None), INode (Arg ''b'' None None)])])
          [Other ''Return'' [(''value'', FNode (Other ''BinOp'' [(''left'', FNode (Name ''a'' Load)), (''op'', FNode (Other ''Sub'' [])),
                                                             (''right'', FNode (Name ''b'' Load))]))]] [] None None []) = 
       (FunctionDef ''add'' (Other ''arguments'' [(''args'', FList [INode (Arg ''z'' None None), INode (Arg ''y'' None None)])])
          [Other ''Return'' [(''value'', FNode (Other ''BinOp'' [(''left'', FNode (Name ''z'' Load)), (''op'', FNode (Other ''Sub'' [])),
                                                             (''right'', FNode (Name ''y'' Load))]))]] [] None None []) \<and>
   without_docstring_code (normalize_ast module_dump (\<lambda>s. s) {''print''} (Module [
       (FunctionDef ''add'' (Other ''arguments'' [(''args'', FList [INode (Arg ''a'' None None), INode (Arg ''b'' None None)])])
          [Other ''Return'' [(''value'', FNode (Other ''BinOp'' [(''left'', FNode (Name ''a'' Load)), (''op'', FNode (Other ''Sub'' [])),
                                                             (''right'', FNode (Name ''b'' Load))]))]] [] None None [])] []) ''eng'') =
     Inr 
     ''Module([FunctionDef(_ouverture_v_0, arguments(args=[arg(_ouverture_v_1), arg(_ouverture_v_2)]), [Return(value=BinOp(left=Name(_ouverture_v_1), op=Sub(), right=Name(_ouverture_v_2)))], [], None, [])])'' \<and>
   without_docstring_code (normalize_ast module_dump (\<lambda>s. s) {''print''} (Module [
       (FunctionDef ''add'' (Other ''arguments'' [(''args'', FList [INode (Arg ''z'' None None), INode (Arg ''y'' None None)])])
          [Other ''Return'' [(''value'', FNode (Other ''BinOp'' [(''left'', FNode (Name ''z'' Load)), (''op'', FNode (Other ''Sub'' [])),
                                                             (''right'', FNode (Name ''y'' Load))]))]] [] None None [])] []) ''eng'') =
     Inr 
     ''Module([FunctionDef(_ouverture_v_0, arguments(args=[arg(_ouverture_v_2), arg(_ouverture_v_1)]), [Return(value=BinOp(left=Name(_ouverture_v_2), op=Sub(), right=Name(_ouverture_v_1)))], [], None, [])])'' \<and>
   
     ''Module([FunctionDef(_ouverture_v_0, arguments(args=[arg(_ouverture_v_1), arg(_ouverture_v_2)]), [Return(value=BinOp(left=Name(_ouverture_v_1), op=Sub(), right=Name(_ouverture_v_2)))], [], None, [])])'' \<noteq>
   
     ''Module([FunctionDef(_ouverture_v_0, arguments(args=[arg(_ouverture_v_2), arg(_ouverture_v_1)]), [Return(value=BinOp(left=Name(_ouverture_v_2), op=Sub(), right=Name(_ouverture_v_1)))], [], None, [])])''"
  by code_simp

end
